theory Spec2Isabelle
  imports Main
begin

section \<open>Python values and exceptions\<close>

text \<open>
  Source text and lexemes are Python \<open>str\<close> values; they are modelled as \<open>string\<close>,
  one \<open>char\<close> per code point (so the model covers the code points below 256, where the
  regular-expression class \<open>\d\<close> is exactly \<open>0-9\<close>).

  Exceptions are values. The lexer and the parser raise \<open>SyntaxError\<close> with a formatted
  message; each message template of the source is one constructor that carries the
  values the template interpolates:
  \<^item> \<open>UnexpectedChar pos c\<close>: \<^verbatim>\<open>f"Unexpected character at pos {pos}: {self.text[pos]!r}"\<close>
  \<^item> \<open>Expected typ t\<close>: \<^verbatim>\<open>f"Expected {typ}, got {t}"\<close>
  \<^item> \<open>ExpectedOperator s t\<close>: \<^verbatim>\<open>f"Expected operator {s}, got {t}"\<close>
  \<^item> \<open>ExpectedType t\<close>: \<^verbatim>\<open>f"Expected type, got {t}"\<close>
  \<^item> \<open>UnexpectedToken t\<close>: \<^verbatim>\<open>f"Unexpected token in expression: {t}"\<close>
  \<open>IndexError\<close> is what \<^verbatim>\<open>self.tokens[self.pos]\<close> raises past the end of the list,
  \<open>TypeError\<close> what \<open>+\<close> and \<open>str.join\<close> raise on \<open>None\<close>, and \<open>BuiltinError\<close> stands
  for whatever \<open>int\<close>, \<open>float\<close> or the \<open>unicode_escape\<close> codec raise on a lexeme they
  reject.
\<close>

type_synonym token = "string \<times> string"

datatype error =
    UnexpectedChar nat char
  | Expected string token
  | ExpectedOperator string token
  | ExpectedType token
  | UnexpectedToken token
  | IndexError
  | TypeError
  | BuiltinError

definition dq :: char where
  "dq = CHR 0x22"

definition bs :: char where
  "bs = CHR 0x5C"

definition nl :: char where
  "nl = CHR 0x0A"

text \<open>\<open>str\<close> of a Python \<open>int\<close>: the decimal digits, with a minus sign below zero.\<close>

definition digit_char :: "nat \<Rightarrow> char" where
  "digit_char d = ''0123456789'' ! d"

function str_nat :: "nat \<Rightarrow> string" where
  "str_nat n = (if n < 10 then [digit_char n] else str_nat (n div 10) @ [digit_char (n mod 10)])"
  by pat_completeness auto
termination
  by (relation "measure id") auto

definition str_int :: "int \<Rightarrow> string" where
  "str_int i = (if i < 0 then ''-'' @ str_nat (nat (- i)) else str_nat (nat i))"

text \<open>\<open>sep.join(xs)\<close> on a list of strings.\<close>

fun join :: "string \<Rightarrow> string list \<Rightarrow> string" where
  "join sep [] = []"
| "join sep [x] = x"
| "join sep (x # y # ys) = x @ sep @ join sep (y # ys)"

text \<open>\<open>s.replace(c, r)\<close> for a one-character pattern \<open>c\<close>.\<close>

definition replace_char :: "char \<Rightarrow> string \<Rightarrow> string \<Rightarrow> string" where
  "replace_char c r s = concat (map (\<lambda>x. if x = c then r else [x]) s)"

section \<open>The abstract syntax tree (ast_nodes.py)\<close>

text \<open>
  \<open>Literal.value\<close> holds a Python \<open>str\<close>, \<open>bool\<close>, \<open>int\<close> or \<open>float\<close>. A float is
  represented by its \<open>repr\<close> (which determines it, and is what \<open>str\<close> returns), so no
  floating-point arithmetic enters the model.

  The classes \<open>Stmt\<close> and \<open>Expr\<close> are open: \<open>OtherStmt\<close> and \<open>OtherExpr\<close> stand for a
  node that is an instance of none of the classes the generator tests for.
\<close>

datatype pyvalue = VStr string | VBool bool | VInt int | VFloat string

datatype expr =
    BinaryExpr expr string expr
  | UnaryExpr string expr
  | Literal pyvalue
  | VarRef string
  | AssignExpr string expr
  | FuncCall string "expr list"
  | OtherExpr

datatype stmt =
    VarDecl string "(string \<times> expr option) list"
  | ExprStmt expr
  | IfStmt expr "stmt list" "stmt list option"
  | WhileStmt expr "stmt list"
  | ForStmt "stmt option" "expr option" "expr option" "stmt list"
  | ReturnStmt "expr option"
  | OtherStmt

record funcdecl =
  return_type :: string
  name :: string
  params :: "(string \<times> string) list"
  body :: "stmt list"

record program =
  funcs :: "funcdecl list"

section \<open>The native generator (codegen_c.py)\<close>

text \<open>The generator's emission state: the output buffer and the indentation depth.\<close>

record ccodegen =
  out_lines :: "string list"
  indent_level :: nat

definition indent :: "nat \<Rightarrow> string" where
  "indent n = concat (replicate n ''    '')"

definition emit :: "ccodegen \<Rightarrow> string \<Rightarrow> ccodegen" where
  "emit g line = g\<lparr>out_lines := out_lines g @ [indent (indent_level g) @ line]\<rparr>"

definition map_type :: "string \<Rightarrow> string" where
  "map_type typ =
     (if typ = ''int'' then ''int''
      else if typ = ''float'' then ''double''
      else if typ = ''string'' then ''char*''
      else if typ = ''bool'' then ''bool''
      else if typ = ''void'' then ''void''
      else ''int'')"

text \<open>
  \<open>gen_expr\<close> returns a \<open>str\<close>, or \<open>None\<close> when no \<open>isinstance\<close> test succeeds and the
  method falls off its end. \<open>fmt\<close> is the interpolation of such a value in an f-string
  (\<open>None\<close> prints as the text None); \<open>must_str\<close> is its use as an operand of \<open>+\<close> or as an
  item of \<open>str.join\<close>, which raise \<open>TypeError\<close> on \<open>None\<close>.
\<close>

definition fmt :: "string option \<Rightarrow> string" where
  "fmt v = (case v of None \<Rightarrow> ''None'' | Some s \<Rightarrow> s)"

definition must_str :: "string option \<Rightarrow> error + string" where
  "must_str v = (case v of None \<Rightarrow> Inl TypeError | Some s \<Rightarrow> Inr s)"

fun must_strs :: "string option list \<Rightarrow> error + string list" where
  "must_strs [] = Inr []"
| "must_strs (v # vs) =
     (case must_str v of Inl e \<Rightarrow> Inl e
      | Inr s \<Rightarrow> (case must_strs vs of Inl e \<Rightarrow> Inl e | Inr ss \<Rightarrow> Inr (s # ss)))"

definition gen_literal :: "pyvalue \<Rightarrow> string" where
  "gen_literal v =
     (case v of
        VStr s \<Rightarrow> [dq] @ replace_char nl [bs, CHR ''n'']
                          (replace_char dq [bs, dq] (replace_char bs [bs, bs] s)) @ [dq]
      | VBool b \<Rightarrow> (if b then ''true'' else ''false'')
      | VInt i \<Rightarrow> str_int i
      | VFloat r \<Rightarrow> r)"

text \<open>The C string literal \<open>"<f>\n"\<close> that every \<open>printf\<close> template starts with.\<close>

definition c_format :: "string \<Rightarrow> string" where
  "c_format f = [dq] @ f @ [bs, CHR ''n'', dq]"

definition gen_print :: "expr \<Rightarrow> string \<Rightarrow> string" where
  "gen_print arg arg_str =
     (case arg of
        Literal (VStr s) \<Rightarrow> ''printf('' @ c_format ''%s'' @ '', '' @ arg_str @ '')''
      | Literal (VFloat r) \<Rightarrow> ''printf('' @ c_format ''%f'' @ '', '' @ arg_str @ '')''
      | Literal (VBool b) \<Rightarrow>
          ''printf('' @ c_format ''%s'' @ '', '' @ arg_str @ '' ? '' @ [dq] @ ''true'' @ [dq]
            @ '' : '' @ [dq] @ ''false'' @ [dq] @ '')''
      | Literal (VInt i) \<Rightarrow> ''printf('' @ c_format ''%d'' @ '', '' @ arg_str @ '')''
      | _ \<Rightarrow> ''printf('' @ c_format ''%d'' @ '', '' @ arg_str @ '')'')"

fun gen_expr :: "expr \<Rightarrow> error + string option"
  and gen_exprs :: "expr list \<Rightarrow> error + string option list" where
  "gen_expr (Literal v) = Inr (Some (gen_literal v))"
| "gen_expr (VarRef n) = Inr (Some n)"
| "gen_expr (AssignExpr n e) =
     (case gen_expr e of Inl err \<Rightarrow> Inl err
      | Inr val \<Rightarrow> Inr (Some (n @ '' = '' @ fmt val)))"
| "gen_expr (BinaryExpr l op r) =
     (case gen_expr l of Inl err \<Rightarrow> Inl err
      | Inr left \<Rightarrow>
          (case gen_expr r of Inl err \<Rightarrow> Inl err
           | Inr right \<Rightarrow> Inr (Some (''('' @ fmt left @ '' '' @ op @ '' '' @ fmt right @ '')''))))"
| "gen_expr (UnaryExpr op e) =
     (case gen_expr e of Inl err \<Rightarrow> Inl err
      | Inr x \<Rightarrow> Inr (Some (''('' @ op @ fmt x @ '')'')))"
| "gen_expr (FuncCall n args) =
     (if n = ''print'' then
        (case args of
           [] \<Rightarrow> Inr (Some (''printf('' @ c_format [] @ '')''))
         | arg # _ \<Rightarrow>
             (case gen_expr arg of Inl err \<Rightarrow> Inl err
              | Inr arg_str \<Rightarrow> Inr (Some (gen_print arg (fmt arg_str)))))
      else if n = ''input'' then Inr (Some ''getchar()'')
      else
        (case gen_exprs args of Inl err \<Rightarrow> Inl err
         | Inr vs \<Rightarrow>
             (case must_strs vs of Inl err \<Rightarrow> Inl err
              | Inr ss \<Rightarrow> Inr (Some (n @ ''('' @ join '', '' ss @ '')'')))))"
| "gen_expr OtherExpr = Inr None"
| "gen_exprs [] = Inr []"
| "gen_exprs (a # as) =
     (case gen_expr a of Inl err \<Rightarrow> Inl err
      | Inr v \<Rightarrow> (case gen_exprs as of Inl err \<Rightarrow> Inl err | Inr vs \<Rightarrow> Inr (v # vs)))"

text \<open>The two adjustments of the indentation depth around a block.\<close>

definition indent_inc :: "ccodegen \<Rightarrow> ccodegen" where
  "indent_inc g = g\<lparr>indent_level := indent_level g + 1\<rparr>"

definition indent_dec :: "ccodegen \<Rightarrow> ccodegen" where
  "indent_dec g = g\<lparr>indent_level := indent_level g - 1\<rparr>"

text \<open>The loop over \<open>s.names\<close> of the \<open>VarDecl\<close> branch of \<open>gen_stmt\<close>.\<close>

fun gen_vardecl :: "string \<Rightarrow> ccodegen \<Rightarrow> (string \<times> expr option) list \<Rightarrow> error + ccodegen" where
  "gen_vardecl c_type g [] = Inr g"
| "gen_vardecl c_type g ((nm, init) # rest) =
     (case init of
        None \<Rightarrow> gen_vardecl c_type (emit g (c_type @ '' '' @ nm @ '';'')) rest
      | Some e \<Rightarrow>
          (case gen_expr e of Inl err \<Rightarrow> Inl err
           | Inr expr \<Rightarrow>
               gen_vardecl c_type (emit g (c_type @ '' '' @ nm @ '' = '' @ fmt expr @ '';'')) rest))"

text \<open>
  The loop over \<open>s.init.names\<close> of the \<open>ForStmt\<close> branch: every name is declared on a
  line of its own, and every initializer is appended to \<open>init_vars\<close> as an assignment.
\<close>

fun gen_for_decls :: "string \<Rightarrow> ccodegen \<Rightarrow> string list \<Rightarrow> (string \<times> expr option) list
    \<Rightarrow> error + (ccodegen \<times> string list)" where
  "gen_for_decls c_type g init_vars [] = Inr (g, init_vars)"
| "gen_for_decls c_type g init_vars ((nm, init_expr) # rest) =
     (case init_expr of
        None \<Rightarrow> gen_for_decls c_type (emit g (c_type @ '' '' @ nm @ '';'')) init_vars rest
      | Some e \<Rightarrow>
          (case gen_expr e of Inl err \<Rightarrow> Inl err
           | Inr x \<Rightarrow>
               gen_for_decls c_type (emit g (c_type @ '' '' @ nm @ '';''))
                 (init_vars @ [nm @ '' = '' @ fmt x]) rest))"

definition gen_for_hoist :: "ccodegen \<Rightarrow> stmt option \<Rightarrow> error + (ccodegen \<times> string list)" where
  "gen_for_hoist g init =
     (case init of
        Some (VarDecl vtype names) \<Rightarrow> gen_for_decls (map_type vtype) g [] names
      | _ \<Rightarrow> Inr (g, []))"

definition for_init_str :: "string list \<Rightarrow> stmt option \<Rightarrow> error + string option" where
  "for_init_str init_vars init =
     (if init_vars \<noteq> [] then Inr (Some (join ''; '' init_vars))
      else (case init of
              Some (ExprStmt e) \<Rightarrow> gen_expr e
            | _ \<Rightarrow> Inr (Some [])))"

definition for_cond_str :: "expr option \<Rightarrow> error + string option" where
  "for_cond_str c = (case c of Some e \<Rightarrow> gen_expr e | None \<Rightarrow> Inr (Some ''1''))"

definition for_post_str :: "expr option \<Rightarrow> error + string option" where
  "for_post_str p = (case p of Some e \<Rightarrow> gen_expr e | None \<Rightarrow> Inr (Some []))"

text \<open>
  The header of the lowered loop, once the hoisted declarations are emitted: the three
  strings are computed in the source's order and interpolated into one line.
\<close>

definition gen_for_header :: "string list \<Rightarrow> stmt option \<Rightarrow> expr option \<Rightarrow> expr option
    \<Rightarrow> error + string" where
  "gen_for_header init_vars init c p =
     (case for_init_str init_vars init of Inl err \<Rightarrow> Inl err
      | Inr init_str \<Rightarrow>
          (case for_cond_str c of Inl err \<Rightarrow> Inl err
           | Inr cond_str \<Rightarrow>
               (case for_post_str p of Inl err \<Rightarrow> Inl err
                | Inr post_str \<Rightarrow>
                    Inr (''for ('' @ fmt init_str @ ''; '' @ fmt cond_str @ ''; '' @ fmt post_str
                         @ '') {''))))"

fun gen_stmt :: "ccodegen \<Rightarrow> stmt \<Rightarrow> error + ccodegen"
  and gen_stmts :: "ccodegen \<Rightarrow> stmt list \<Rightarrow> error + ccodegen" where
  "gen_stmt g (VarDecl vtype names) = gen_vardecl (map_type vtype) g names"
| "gen_stmt g (ExprStmt e) =
     (case gen_expr e of Inl err \<Rightarrow> Inl err
      | Inr x \<Rightarrow> (case must_str x of Inl err \<Rightarrow> Inl err | Inr s \<Rightarrow> Inr (emit g (s @ '';''))))"
| "gen_stmt g (IfStmt c then_block else_block) =
     (case gen_expr c of Inl err \<Rightarrow> Inl err
      | Inr cond \<Rightarrow>
          (case gen_stmts (indent_inc (emit g (''if ('' @ fmt cond @ '') {''))) then_block of
             Inl err \<Rightarrow> Inl err
           | Inr g1 \<Rightarrow>
               (case else_block of
                  None \<Rightarrow> Inr (emit (indent_dec g1) ''}'')
                | Some eb \<Rightarrow>
                    (case gen_stmts (indent_inc (emit (indent_dec g1) ''} else {'')) eb of
                       Inl err \<Rightarrow> Inl err
                     | Inr g2 \<Rightarrow> Inr (emit (indent_dec g2) ''}'')))))"
| "gen_stmt g (WhileStmt c b) =
     (case gen_expr c of Inl err \<Rightarrow> Inl err
      | Inr cond \<Rightarrow>
          (case gen_stmts (indent_inc (emit g (''while ('' @ fmt cond @ '') {''))) b of
             Inl err \<Rightarrow> Inl err
           | Inr g1 \<Rightarrow> Inr (emit (indent_dec g1) ''}'')))"
| "gen_stmt g (ForStmt init c p b) =
     (case gen_for_hoist g init of Inl err \<Rightarrow> Inl err
      | Inr (g1, init_vars) \<Rightarrow>
          (case gen_for_header init_vars init c p of Inl err \<Rightarrow> Inl err
           | Inr header \<Rightarrow>
               (case gen_stmts (indent_inc (emit g1 header)) b of Inl err \<Rightarrow> Inl err
                | Inr g2 \<Rightarrow> Inr (emit (indent_dec g2) ''}''))))"
| "gen_stmt g (ReturnStmt r) =
     (case r of
        None \<Rightarrow> Inr (emit g ''return;'')
      | Some e \<Rightarrow>
          (case gen_expr e of Inl err \<Rightarrow> Inl err
           | Inr x \<Rightarrow> Inr (emit g (''return '' @ fmt x @ '';''))))"
| "gen_stmt g OtherStmt = Inr g"
| "gen_stmts g [] = Inr g"
| "gen_stmts g (st # sts) =
     (case gen_stmt g st of Inl err \<Rightarrow> Inl err | Inr g1 \<Rightarrow> gen_stmts g1 sts)"

text \<open>\<open>isinstance(s, ReturnStmt)\<close>.\<close>

fun is_ReturnStmt :: "stmt \<Rightarrow> bool" where
  "is_ReturnStmt (ReturnStmt r) = True"
| "is_ReturnStmt s = False"

text \<open>
  The parameter list of a signature; the source computes it twice, by the same
  expression, for the forward declaration and for the definition.
\<close>

definition gen_params :: "(string \<times> string) list \<Rightarrow> string" where
  "gen_params ps =
     (if ps \<noteq> [] then join '', '' (map (\<lambda>(ptype, pname). map_type ptype @ '' '' @ pname) ps)
      else ''void'')"

definition gen_function :: "ccodegen \<Rightarrow> funcdecl \<Rightarrow> error + ccodegen" where
  "gen_function g f =
     (let ret_type = map_type (return_type f);
          ps = gen_params (params f);
          g1 = indent_inc (emit g (ret_type @ '' '' @ name f @ ''('' @ ps @ '') {''))
      in case gen_stmts g1 (body f) of Inl err \<Rightarrow> Inl err
         | Inr g2 \<Rightarrow>
             (let g3 = (if return_type f \<noteq> ''void'' \<and> \<not> list_ex is_ReturnStmt (body f)
                        then emit g2 ''return 0;'' else g2)
              in Inr (emit (indent_dec g3) ''}'')))"

text \<open>The two loops of \<open>generate\<close> over \<open>self.program.funcs\<close>.\<close>

fun gen_forward_decls :: "ccodegen \<Rightarrow> funcdecl list \<Rightarrow> ccodegen" where
  "gen_forward_decls g [] = g"
| "gen_forward_decls g (f # fs) =
     gen_forward_decls
       (emit g (map_type (return_type f) @ '' '' @ name f @ ''('' @ gen_params (params f) @ '');''))
       fs"

fun gen_functions :: "ccodegen \<Rightarrow> funcdecl list \<Rightarrow> error + ccodegen" where
  "gen_functions g [] = Inr g"
| "gen_functions g (f # fs) =
     (case gen_function g f of Inl err \<Rightarrow> Inl err | Inr g1 \<Rightarrow> gen_functions (emit g1 []) fs)"

definition headers :: "string list" where
  "headers = [''#include <stdio.h>'', ''#include <stdlib.h>'', ''#include <string.h>'',
              ''#include <stdbool.h>'']"

definition generate :: "program \<Rightarrow> error + string" where
  "generate p =
     (let g0 = \<lparr>out_lines = [], indent_level = 0\<rparr>;
          g1 = emit (fold (\<lambda>h g. emit g h) headers g0) [];
          g2 = emit (gen_forward_decls g1 (funcs p)) []
      in case gen_functions g2 (funcs p) of Inl err \<Rightarrow> Inl err
         | Inr g3 \<Rightarrow> Inr (join [nl] (out_lines g3)))"

subsection \<open>What a generator method appends to the buffer\<close>

text \<open>
  Every method of the generator only appends to \<open>out_lines\<close>. \<open>stmt_lines n st\<close> and
  \<open>block_lines n sts\<close> are the lines that \<open>gen_stmt\<close> and the loop over a block append
  at indentation depth \<open>n\<close>, read off a run from an empty buffer; \<open>emitted g r\<close> appends
  such lines to the buffer of \<open>g\<close>.
\<close>

definition fresh :: "nat \<Rightarrow> ccodegen" where
  "fresh n = \<lparr>out_lines = [], indent_level = n\<rparr>"

definition emitted :: "ccodegen \<Rightarrow> error + string list \<Rightarrow> error + ccodegen" where
  "emitted g r = (case r of Inl e \<Rightarrow> Inl e | Inr ls \<Rightarrow> Inr (g\<lparr>out_lines := out_lines g @ ls\<rparr>))"

definition lines_of :: "error + ccodegen \<Rightarrow> error + string list" where
  "lines_of r = (case r of Inl e \<Rightarrow> Inl e | Inr g \<Rightarrow> Inr (out_lines g))"

definition stmt_lines :: "nat \<Rightarrow> stmt \<Rightarrow> error + string list" where
  "stmt_lines n st = lines_of (gen_stmt (fresh n) st)"

definition block_lines :: "nat \<Rightarrow> stmt list \<Rightarrow> error + string list" where
  "block_lines n sts = lines_of (gen_stmts (fresh n) sts)"

definition function_lines :: "nat \<Rightarrow> funcdecl \<Rightarrow> error + string list" where
  "function_lines n f = lines_of (gen_function (fresh n) f)"



subsection \<open>Programs built from the known node classes\<close>

text \<open>
  \<open>known_expr\<close> and \<open>known_stmt\<close> hold of a tree in which every node is an instance of
  one of the classes that \<open>gen_expr\<close> and \<open>gen_stmt\<close> test for.
\<close>

fun known_expr :: "expr \<Rightarrow> bool" where
  "known_expr (BinaryExpr l op r) = (known_expr l \<and> known_expr r)"
| "known_expr (UnaryExpr op e) = known_expr e"
| "known_expr (Literal v) = True"
| "known_expr (VarRef n) = True"
| "known_expr (AssignExpr n e) = known_expr e"
| "known_expr (FuncCall n args) = list_all known_expr args"
| "known_expr OtherExpr = False"

definition known_opt_expr :: "expr option \<Rightarrow> bool" where
  "known_opt_expr eo = (case eo of None \<Rightarrow> True | Some e \<Rightarrow> known_expr e)"

fun known_stmt :: "stmt \<Rightarrow> bool" where
  "known_stmt (VarDecl vtype names) = list_all (\<lambda>(nm, init). known_opt_expr init) names"
| "known_stmt (ExprStmt e) = known_expr e"
| "known_stmt (IfStmt c tb eb) =
     (known_expr c \<and> list_all known_stmt tb
      \<and> (case eb of None \<Rightarrow> True | Some sts \<Rightarrow> list_all known_stmt sts))"
| "known_stmt (WhileStmt c b) = (known_expr c \<and> list_all known_stmt b)"
| "known_stmt (ForStmt init c p b) =
     ((case init of None \<Rightarrow> True | Some s \<Rightarrow> known_stmt s)
      \<and> known_opt_expr c \<and> known_opt_expr p \<and> list_all known_stmt b)"
| "known_stmt (ReturnStmt r) = known_opt_expr r"
| "known_stmt OtherStmt = False"

definition known_program :: "program \<Rightarrow> bool" where
  "known_program p = list_all (\<lambda>f. list_all known_stmt (body f)) (funcs p)"

section \<open>The tokenizer (lexer.py)\<close>

text \<open>
  \<open>master_re\<close> is the alternation of the six rules of \<open>TOKEN_SPEC\<close>, each a named
  group, and \<open>master_re.match(text, pos)\<close> tries them at \<open>pos\<close> in that order: the first
  rule that matches wins, and within a rule the quantifiers are greedy. No rule looks
  behind \<open>pos\<close>, so a rule is modelled as a function of the rest of the text,
  \<open>drop pos text\<close>, that returns the matched lexeme.
\<close>

definition is_digit :: "char \<Rightarrow> bool" where
  "is_digit c = (c \<in> set ''0123456789'')"

definition is_space :: "char \<Rightarrow> bool" where
  "is_space c = (c \<in> set [CHR '' '', CHR 0x09, CHR 0x0D, CHR 0x0A])"

definition is_id_start :: "char \<Rightarrow> bool" where
  "is_id_start c = (c \<in> set ''ABCDEFGHIJKLMNOPQRSTUVWXYZabcdefghijklmnopqrstuvwxyz_'')"

definition is_id_char :: "char \<Rightarrow> bool" where
  "is_id_char c = (is_id_start c \<or> is_digit c)"

text \<open>\<^verbatim>\<open>//[^\n]*\<close>\<close>

definition match_comment :: "string \<Rightarrow> string option" where
  "match_comment cs =
     (if take 2 cs = ''//'' then Some (''//'' @ takeWhile (\<lambda>c. c \<noteq> nl) (drop 2 cs)) else None)"

text \<open>\<^verbatim>\<open>[ \t\r\n]+\<close>\<close>

definition match_whitespace :: "string \<Rightarrow> string option" where
  "match_whitespace cs =
     (if takeWhile is_space cs \<noteq> [] then Some (takeWhile is_space cs) else None)"

text \<open>
  \<^verbatim>\<open>\d+(\.\d+)?\<close>: all the digits, then a dot and digits when at least one digit
  follows the dot.
\<close>

definition match_number :: "string \<Rightarrow> string option" where
  "match_number cs =
     (let ds = takeWhile is_digit cs; rest = dropWhile is_digit cs in
      if ds = [] then None
      else if take 1 rest = ''.'' \<and> takeWhile is_digit (drop 1 rest) \<noteq> []
           then Some (ds @ ''.'' @ takeWhile is_digit (drop 1 rest))
           else Some ds)"

text \<open>
  \<^verbatim>\<open>"([^"\\]|\\.)*"\<close>: after the opening quote, \<open>string_body\<close> scans the items of
  the starred group up to the closing quote. The two alternatives of the group start
  with different characters and neither starts with a quote, so the scan is
  deterministic and backtracking over the star finds nothing else: where the scan
  fails (the text ends, or a backslash is followed by a newline or by the end), the
  rule does not match. \<open>.\<close> matches every character but the newline.
\<close>

fun string_body :: "string \<Rightarrow> string option" where
  "string_body [] = None"
| "string_body (c # cs) =
     (if c = dq then Some [dq]
      else if c = bs then
        (case cs of
           [] \<Rightarrow> None
         | d # ds \<Rightarrow>
             (if d = nl then None
              else (case string_body ds of None \<Rightarrow> None | Some b \<Rightarrow> Some (c # d # b))))
      else (case string_body cs of None \<Rightarrow> None | Some b \<Rightarrow> Some (c # b)))"

definition match_string :: "string \<Rightarrow> string option" where
  "match_string cs =
     (case cs of
        [] \<Rightarrow> None
      | c # rest \<Rightarrow>
          (if c = dq then (case string_body rest of None \<Rightarrow> None | Some b \<Rightarrow> Some (dq # b))
           else None))"

text \<open>\<^verbatim>\<open>[A-Za-z_][A-Za-z0-9_]*\<close>\<close>

definition match_id :: "string \<Rightarrow> string option" where
  "match_id cs =
     (case cs of
        [] \<Rightarrow> None
      | c # rest \<Rightarrow> (if is_id_start c then Some (c # takeWhile is_id_char rest) else None))"

text \<open>\<^verbatim>\<open>==|!=|<=|>=|&&|\|\||[+\-*/%<>=!;(),{}]\<close>\<close>

definition match_op :: "string \<Rightarrow> string option" where
  "match_op cs =
     (if take 2 cs \<in> set [''=='', ''!='', ''<='', ''>='', ''&&'', ''||''] then Some (take 2 cs)
      else if take 1 cs \<noteq> [] \<and> hd cs \<in> set ''+-*/%<>=!;(),{}'' then Some (take 1 cs)
      else None)"

text \<open>The match object: \<open>m.lastgroup\<close> and \<open>m.group(kind)\<close>, or \<open>None\<close>.\<close>

definition master_match :: "string \<Rightarrow> (string \<times> string) option" where
  "master_match cs =
     (case match_comment cs of Some v \<Rightarrow> Some (''COMMENT'', v) | None \<Rightarrow>
      (case match_whitespace cs of Some v \<Rightarrow> Some (''WHITESPACE'', v) | None \<Rightarrow>
       (case match_number cs of Some v \<Rightarrow> Some (''NUMBER'', v) | None \<Rightarrow>
        (case match_string cs of Some v \<Rightarrow> Some (''STRING'', v) | None \<Rightarrow>
         (case match_id cs of Some v \<Rightarrow> Some (''ID'', v) | None \<Rightarrow>
          (case match_op cs of Some v \<Rightarrow> Some (''OP'', v) | None \<Rightarrow> None))))))"

definition KEYWORDS :: "string list" where
  "KEYWORDS = [''int'', ''float'', ''string'', ''bool'', ''if'', ''else'', ''while'', ''for'',
               ''return'', ''func'', ''true'', ''false'', ''input'', ''void'']"

text \<open>\<open>str.upper\<close>, which the tokenizer applies to keywords only.\<close>

definition upper_char :: "char \<Rightarrow> char" where
  "upper_char c =
     (case map_of (zip ''abcdefghijklmnopqrstuvwxyz'' ''ABCDEFGHIJKLMNOPQRSTUVWXYZ'') c of
        Some u \<Rightarrow> u | None \<Rightarrow> c)"

definition upper :: "string \<Rightarrow> string" where
  "upper s = map upper_char s"

text \<open>
  The loop of \<open>tokenize\<close>, with \<open>pos\<close> and \<open>tokens\<close> as arguments. \<open>m.end()\<close> is
  \<open>pos\<close> plus the length of the lexeme. Every rule matches at least one character, so
  \<open>pos\<close> grows and the loop ends.
\<close>

function tokenize_loop :: "string \<Rightarrow> nat \<Rightarrow> token list \<Rightarrow> error + token list" where
  "tokenize_loop text pos tokens =
     (if pos < length text then
        (case master_match (drop pos text) of
           None \<Rightarrow> Inl (UnexpectedChar pos (text ! pos))
         | Some (kind, val) \<Rightarrow>
             (if kind = ''WHITESPACE'' \<or> kind = ''COMMENT'' then
                tokenize_loop text (pos + length val) tokens
              else if kind = ''ID'' \<and> val \<in> set KEYWORDS then
                tokenize_loop text (pos + length val) (tokens @ [(upper val, val)])
              else tokenize_loop text (pos + length val) (tokens @ [(kind, val)])))
      else Inr (tokens @ [(''EOF'', [])]))"
  by pat_completeness auto
termination
proof -
  have nonempty: "0 < length v" if "master_match cs = Some (k, v)" for cs k v
    using that
    by (auto simp: master_match_def match_comment_def match_whitespace_def match_number_def
          match_string_def match_id_def match_op_def Let_def
          split: option.splits if_splits list.splits)
  have dec: "length src - (pos + length v) < length src - pos"
    if "pos < length src" and "master_match (drop pos src) = Some (k, v)" for src pos k v
    using nonempty[OF that(2)] that(1) by arith
  show ?thesis
    by (relation "measure (\<lambda>(text, pos, tokens). length text - pos)")
       (auto intro: dec)
qed

declare tokenize_loop.simps [simp del]

definition tokenize :: "string \<Rightarrow> error + token list" where
  "tokenize text = tokenize_loop text 0 []"

text \<open>
  The positions that the variable \<open>pos\<close> of the loop takes on a text: \<open>0\<close>, and the end
  of every match that starts at such a position.
\<close>

inductive scan_pos :: "string \<Rightarrow> nat \<Rightarrow> bool" for src :: string where
  start: "scan_pos src 0"
| step: "scan_pos src p \<Longrightarrow> p < length src \<Longrightarrow> master_match (drop p src) = Some (k, v)
         \<Longrightarrow> scan_pos src (p + length v)"

section \<open>The parser (parser.py)\<close>

text \<open>
  The parser object holds the token list, which never changes, and the position \<open>pos\<close>.
  Every method is a function of the token list and the position that returns its result
  together with the new position, or the exception it raises.

  Three built-ins turn a lexeme into the value of a literal: \<open>int\<close>, \<open>float\<close> and the
  \<open>unicode_escape\<close> codec. They are parameters of the model (\<open>py_float\<close> returns the
  \<open>repr\<close> of the float, which is how a float is represented here).
\<close>

record builtins =
  py_int :: "string \<Rightarrow> error + int"
  py_float :: "string \<Rightarrow> error + string"
  py_unescape :: "string \<Rightarrow> error + string"

definition PRECEDENCE :: "string \<Rightarrow> nat option" where
  "PRECEDENCE =
     map_of [(''||'', 1), (''&&'', 2), (''=='', 3), (''!='', 3),
             (''<'', 4), (''>'', 4), (''<='', 4), (''>='', 4),
             (''+'', 5), (''-'', 5), (''*'', 6), (''/'', 6), (''%'', 6)]"

definition peek :: "token list \<Rightarrow> nat \<Rightarrow> error + token" where
  "peek tokens pos = (if pos < length tokens then Inr (tokens ! pos) else Inl IndexError)"

definition next_token :: "token list \<Rightarrow> nat \<Rightarrow> error + token \<times> nat" where
  "next_token tokens pos =
     (if pos < length tokens then Inr (tokens ! pos, pos + 1) else Inl IndexError)"

definition expect :: "token list \<Rightarrow> nat \<Rightarrow> string \<Rightarrow> error + token \<times> nat" where
  "expect tokens pos typ =
     (case next_token tokens pos of
        Inl e \<Rightarrow> Inl e
      | Inr (t, p) \<Rightarrow> (if fst t \<noteq> typ then Inl (Expected typ t) else Inr (t, p)))"

definition expect_op :: "token list \<Rightarrow> nat \<Rightarrow> string \<Rightarrow> error + nat" where
  "expect_op tokens pos s =
     (case next_token tokens pos of
        Inl e \<Rightarrow> Inl e
      | Inr (t, p) \<Rightarrow> (if snd t \<noteq> s then Inl (ExpectedOperator s t) else Inr p))"

definition expect_type :: "token list \<Rightarrow> nat \<Rightarrow> error + token \<times> nat" where
  "expect_type tokens pos =
     (case peek tokens pos of
        Inl e \<Rightarrow> Inl e
      | Inr t \<Rightarrow>
          (if fst t \<in> set [''INT'', ''FLOAT'', ''STRING'', ''BOOL'', ''VOID'']
           then next_token tokens pos else Inl (ExpectedType t)))"

text \<open>The value of a \<open>NUMBER\<close> and of a \<open>STRING\<close> token; \<open>s[1:-1]\<close> is \<open>butlast (tl s)\<close>.\<close>

definition number_literal :: "builtins \<Rightarrow> string \<Rightarrow> error + expr" where
  "number_literal B tok =
     (if CHR ''.'' \<in> set tok
      then (case py_float B tok of Inl e \<Rightarrow> Inl e | Inr r \<Rightarrow> Inr (Literal (VFloat r)))
      else (case py_int B tok of Inl e \<Rightarrow> Inl e | Inr i \<Rightarrow> Inr (Literal (VInt i))))"

definition string_literal :: "builtins \<Rightarrow> string \<Rightarrow> error + expr" where
  "string_literal B s =
     (case py_unescape B (butlast (tl s)) of Inl e \<Rightarrow> Inl e | Inr v \<Rightarrow> Inr (Literal (VStr v)))"

text \<open>
  \<open>parse_expr\<close> and \<open>parse_primary\<close> call each other, and each of their two loops calls
  \<open>parse_expr\<close>. The recursion is on a fuel argument that every call and every loop
  iteration decrements; \<open>None\<close> means that the fuel ran out, \<open>Some (Inl e)\<close> that the
  method raised \<open>e\<close>, and \<open>Some (Inr (x, pos))\<close> that it returned \<open>x\<close> and left the parser
  at \<open>pos\<close>. \<open>andthen m f\<close> runs \<open>f\<close> on what \<open>m\<close> returned and passes on an exception
  or the end of the fuel; \<open>check r\<close> is a step that needs no fuel.
  \<open>parse_binary\<close> is the loop of \<open>parse_expr\<close> over binary operators and \<open>parse_args\<close>
  the loop of \<open>parse_primary\<close> over the arguments of a call.
\<close>

definition andthen :: "(error + 'a) option \<Rightarrow> ('a \<Rightarrow> (error + 'b) option) \<Rightarrow> (error + 'b) option" where
  "andthen m f = (case m of None \<Rightarrow> None | Some (Inl e) \<Rightarrow> Some (Inl e) | Some (Inr x) \<Rightarrow> f x)"

definition check :: "error + 'a \<Rightarrow> (error + 'a) option" where
  "check r = Some r"

definition returns :: "'a \<Rightarrow> (error + 'a) option" where
  "returns x = Some (Inr x)"

function parse_expr :: "builtins \<Rightarrow> token list \<Rightarrow> nat \<Rightarrow> nat \<Rightarrow> nat \<Rightarrow> (error + expr \<times> nat) option"
  and parse_binary :: "builtins \<Rightarrow> token list \<Rightarrow> nat \<Rightarrow> nat \<Rightarrow> expr \<Rightarrow> nat
        \<Rightarrow> (error + expr \<times> nat) option"
  and parse_primary :: "builtins \<Rightarrow> token list \<Rightarrow> nat \<Rightarrow> nat \<Rightarrow> (error + expr \<times> nat) option"
  and parse_args :: "builtins \<Rightarrow> token list \<Rightarrow> nat \<Rightarrow> expr list \<Rightarrow> nat
        \<Rightarrow> (error + expr list \<times> nat) option" where
  "parse_expr B tokens 0 min_prec pos = None"
| "parse_expr B tokens (Suc n) min_prec pos =
     andthen (check (peek tokens pos)) (\<lambda>t.
       if snd t \<in> set [''+'', ''-'', ''!''] then
         andthen (parse_expr B tokens n 7 (pos + 1)) (\<lambda>(operand, p1).
           parse_binary B tokens n min_prec (UnaryExpr (snd t) operand) p1)
       else
         andthen (parse_primary B tokens n pos) (\<lambda>(lhs, p1).
           parse_binary B tokens n min_prec lhs p1))"
| "parse_binary B tokens 0 min_prec lhs pos = None"
| "parse_binary B tokens (Suc n) min_prec lhs pos =
     andthen (check (peek tokens pos)) (\<lambda>tok.
       case PRECEDENCE (snd tok) of
         None \<Rightarrow> returns (lhs, pos)
       | Some prec \<Rightarrow>
           if prec < min_prec then returns (lhs, pos)
           else
             andthen (parse_expr B tokens n (prec + 1) (pos + 1)) (\<lambda>(rhs, p1).
               parse_binary B tokens n min_prec (BinaryExpr lhs (snd tok) rhs) p1))"
| "parse_primary B tokens 0 pos = None"
| "parse_primary B tokens (Suc n) pos =
     andthen (check (peek tokens pos)) (\<lambda>t.
       if fst t = ''NUMBER'' then
         andthen (check (number_literal B (snd t))) (\<lambda>l. returns (l, pos + 1))
       else if fst t = ''STRING'' then
         andthen (check (string_literal B (snd t))) (\<lambda>l. returns (l, pos + 1))
       else if fst t \<in> set [''TRUE'', ''FALSE''] then
         returns (Literal (VBool (fst t = ''TRUE'')), pos + 1)
       else if fst t = ''ID'' then
         andthen (check (peek tokens (pos + 1))) (\<lambda>t1.
           if snd t1 = ''('' then
             andthen (check (peek tokens (pos + 2))) (\<lambda>t2.
               andthen (if snd t2 \<noteq> '')'' then parse_args B tokens n [] (pos + 2)
                        else returns ([], pos + 2)) (\<lambda>(args, p1).
                 andthen (check (expect_op tokens p1 '')'')) (\<lambda>p2.
                   returns (FuncCall (snd t) args, p2))))
           else if snd t1 = ''='' then
             andthen (parse_expr B tokens n 1 (pos + 2)) (\<lambda>(val, p1).
               returns (AssignExpr (snd t) val, p1))
           else returns (VarRef (snd t), pos + 1))
       else if snd t = ''('' then
         andthen (parse_expr B tokens n 1 (pos + 1)) (\<lambda>(e, p1).
           andthen (check (expect_op tokens p1 '')'')) (\<lambda>p2. returns (e, p2)))
       else check (Inl (UnexpectedToken t)))"
| "parse_args B tokens 0 args pos = None"
| "parse_args B tokens (Suc n) args pos =
     andthen (parse_expr B tokens n 1 pos) (\<lambda>(a, p1).
       andthen (check (peek tokens p1)) (\<lambda>t.
         if snd t = '','' then parse_args B tokens n (args @ [a]) (p1 + 1)
         else returns (args @ [a], p1)))"
  by pat_completeness auto
termination
  by (relation "measure (\<lambda>x. case x of
          Inl (Inl (B, tokens, n, min_prec, pos)) \<Rightarrow> n
        | Inl (Inr (B, tokens, n, min_prec, lhs, pos)) \<Rightarrow> n
        | Inr (Inl (B, tokens, n, pos)) \<Rightarrow> n
        | Inr (Inr (B, tokens, n, args, pos)) \<Rightarrow> n)")
     auto

text \<open>
  The loop over the declarators of \<open>parse_vardecl\<close>, and the method. \<open>names\<close> is the
  list built so far.
\<close>

fun vardecl_names :: "builtins \<Rightarrow> token list \<Rightarrow> nat \<Rightarrow> (string \<times> expr option) list \<Rightarrow> nat
        \<Rightarrow> (error + (string \<times> expr option) list \<times> nat) option" where
  "vardecl_names B tokens 0 names pos = None"
| "vardecl_names B tokens (Suc n) names pos =
     andthen (check (expect tokens pos ''ID'')) (\<lambda>(t, p1).
       andthen (check (peek tokens p1)) (\<lambda>t1.
         andthen (if snd t1 = ''=''
                  then andthen (parse_expr B tokens n 1 (p1 + 1)) (\<lambda>(e, p2). returns (Some e, p2))
                  else returns (None, p1)) (\<lambda>(init, p2).
           andthen (check (peek tokens p2)) (\<lambda>t2.
             if snd t2 = '',''
             then vardecl_names B tokens n (names @ [(snd t, init)]) (p2 + 1)
             else returns (names @ [(snd t, init)], p2)))))"

definition parse_vardecl :: "builtins \<Rightarrow> token list \<Rightarrow> nat \<Rightarrow> nat \<Rightarrow> (error + stmt \<times> nat) option" where
  "parse_vardecl B tokens fuel pos =
     andthen (check (expect_type tokens pos)) (\<lambda>(t, p1).
       andthen (vardecl_names B tokens fuel [] p1) (\<lambda>(names, p2).
         andthen (check (expect_op tokens p2 '';'')) (\<lambda>p3.
           returns (VarDecl (snd t) names, p3))))"

text \<open>The same for \<open>parse_vardecl_for\<close>, translated from its own text.\<close>

fun vardecl_for_names :: "builtins \<Rightarrow> token list \<Rightarrow> nat \<Rightarrow> (string \<times> expr option) list \<Rightarrow> nat
        \<Rightarrow> (error + (string \<times> expr option) list \<times> nat) option" where
  "vardecl_for_names B tokens 0 names pos = None"
| "vardecl_for_names B tokens (Suc n) names pos =
     andthen (check (expect tokens pos ''ID'')) (\<lambda>(t, p1).
       andthen (check (peek tokens p1)) (\<lambda>t1.
         andthen (if snd t1 = ''=''
                  then andthen (parse_expr B tokens n 1 (p1 + 1)) (\<lambda>(e, p2). returns (Some e, p2))
                  else returns (None, p1)) (\<lambda>(init, p2).
           andthen (check (peek tokens p2)) (\<lambda>t2.
             if snd t2 = '',''
             then vardecl_for_names B tokens n (names @ [(snd t, init)]) (p2 + 1)
             else returns (names @ [(snd t, init)], p2)))))"

definition parse_vardecl_for :: "builtins \<Rightarrow> token list \<Rightarrow> nat \<Rightarrow> nat \<Rightarrow> (error + stmt \<times> nat) option" where
  "parse_vardecl_for B tokens fuel pos =
     andthen (check (expect_type tokens pos)) (\<lambda>(t, p1).
       andthen (vardecl_for_names B tokens fuel [] p1) (\<lambda>(names, p2).
         andthen (check (expect_op tokens p2 '';'')) (\<lambda>p3.
           returns (VarDecl (snd t) names, p3))))"

section \<open>Properties of the native generator\<close>

subsection \<open>The generator only appends\<close>

lemma emitted_simps [simp]:
  "emitted g (Inl e) = Inl e"
  "emitted g (Inr ls) = Inr (g\<lparr>out_lines := out_lines g @ ls\<rparr>)"
  by (simp_all add: emitted_def)

lemma lines_of_simps [simp]:
  "lines_of (Inl e) = Inl e"
  "lines_of (Inr g) = Inr (out_lines g)"
  by (simp_all add: lines_of_def)

lemma lines_of_emitted [simp]:
  "lines_of (emitted g r) = (case r of Inl e \<Rightarrow> Inl e | Inr ls \<Rightarrow> Inr (out_lines g @ ls))"
  by (cases r) simp_all

lemma gen_vardecl_emitted:
  "gen_vardecl t g ns = emitted g (lines_of (gen_vardecl t (fresh (indent_level g)) ns))"
proof -
  have "gen_vardecl t (h\<lparr>out_lines := a @ b\<rparr>) ns
        = (case lines_of (gen_vardecl t (fresh (indent_level h)\<lparr>out_lines := b\<rparr>) ns) of
             Inl e \<Rightarrow> Inl e | Inr ls \<Rightarrow> Inr (h\<lparr>out_lines := a @ ls\<rparr>))" for a b and h :: ccodegen
  proof (induction ns arbitrary: b)
    case Nil
    show ?case by (simp add: fresh_def)
  next
    case (Cons p ns)
    obtain nm i where p: "p = (nm, i)" by (cases p)
    show ?case
      using Cons.IH by (simp add: p emit_def fresh_def split: option.splits sum.splits)
  qed
  from this[where h=g and a="out_lines g" and b="[]"] show ?thesis
    by (simp add: fresh_def emitted_def split: sum.splits)
qed


lemma gen_for_decls_emitted:
  "gen_for_decls t (h\<lparr>out_lines := a @ b\<rparr>) vs ns
     = (case gen_for_decls t (fresh (indent_level h)\<lparr>out_lines := b\<rparr>) vs ns of
          Inl e \<Rightarrow> Inl e
        | Inr r \<Rightarrow> Inr (h\<lparr>out_lines := a @ out_lines (fst r)\<rparr>, snd r))"
proof (induction ns arbitrary: b vs)
  case Nil
  show ?case by (simp add: fresh_def)
next
  case (Cons p ns)
  obtain nm i where p: "p = (nm, i)" by (cases p)
  show ?case
    using Cons.IH by (simp add: p emit_def fresh_def split: option.splits sum.splits)
qed

lemma gen_for_hoist_emitted:
  "gen_for_hoist g i
     = (case gen_for_hoist (fresh (indent_level g)) i of
          Inl e \<Rightarrow> Inl e
        | Inr r \<Rightarrow> Inr (g\<lparr>out_lines := out_lines g @ out_lines (fst r)\<rparr>, snd r))"
proof -
  have "gen_for_decls t g [] ns
     = (case gen_for_decls t (fresh (indent_level g)) [] ns of
          Inl e \<Rightarrow> Inl e
        | Inr r \<Rightarrow> Inr (g\<lparr>out_lines := out_lines g @ out_lines (fst r)\<rparr>, snd r))" for t ns
    using gen_for_decls_emitted[where h=g and a="out_lines g" and b="[]" and t=t and vs="[]" and ns=ns]
    by (simp add: fresh_def)
  then show ?thesis
    by (simp add: gen_for_hoist_def fresh_def split: option.splits stmt.splits)
qed

lemma gen_stmts_emitted_aux:
  assumes "\<And>st g. st \<in> set sts \<Longrightarrow> gen_stmt g st = emitted g (stmt_lines (indent_level g) st)"
  shows "gen_stmts g sts = emitted g (block_lines (indent_level g) sts)"
  using assms
proof (induction sts arbitrary: g)
  case Nil
  show ?case by (simp add: block_lines_def fresh_def)
next
  case (Cons st sts)
  have h: "gen_stmt g st = emitted g (stmt_lines (indent_level g) st)" for g
    using Cons.prems by simp
  have t: "gen_stmts g sts = emitted g (block_lines (indent_level g) sts)" for g
    using Cons.IH Cons.prems by simp
  have "block_lines (indent_level g) (st # sts)
        = (case stmt_lines (indent_level g) st of Inl e \<Rightarrow> Inl e
           | Inr l1 \<Rightarrow> (case block_lines (indent_level g) sts of Inl e \<Rightarrow> Inl e
               | Inr l2 \<Rightarrow> Inr (l1 @ l2)))"
    unfolding block_lines_def[of _ "st # sts"]
    by (simp add: h t fresh_def split: sum.splits)
  then show ?case
    by (simp add: h t split: sum.splits)
qed


lemma gen_stmt_emitted:
  "gen_stmt g st = emitted g (stmt_lines (indent_level g) st)"
proof (induction st arbitrary: g)
  case (VarDecl t ns)
  show ?case
    using gen_vardecl_emitted[of "map_type t" g ns]
    by (simp add: stmt_lines_def)
next
  case (ExprStmt e)
  show ?case
    by (simp add: stmt_lines_def fresh_def emit_def split: sum.splits)
next
  case (IfStmt c tb eb)
  have tb: "gen_stmts g tb = emitted g (block_lines (indent_level g) tb)" for g
    using IfStmt.IH(1) by (rule gen_stmts_emitted_aux)
  have eb: "gen_stmts g sts = emitted g (block_lines (indent_level g) sts)" if "eb = Some sts" for g sts
    using IfStmt.IH(2) that by (intro gen_stmts_emitted_aux) auto
  show ?case
    unfolding stmt_lines_def
    by (cases "gen_expr c"; cases "block_lines (Suc (indent_level g)) tb";
        cases "case eb of None \<Rightarrow> Inr [] | Some sts \<Rightarrow> block_lines (Suc (indent_level g)) sts";
        cases eb)
       (simp_all add: tb eb fresh_def emit_def indent_inc_def indent_dec_def)
next
  case (WhileStmt c b)
  have b: "gen_stmts g b = emitted g (block_lines (indent_level g) b)" for g
    using WhileStmt.IH by (rule gen_stmts_emitted_aux)
  show ?case
    unfolding stmt_lines_def
    by (cases "gen_expr c"; cases "block_lines (Suc (indent_level g)) b")
       (simp_all add: b fresh_def emit_def indent_inc_def indent_dec_def)
next
  case (ForStmt i c p b)
  have b: "gen_stmts g b = emitted g (block_lines (indent_level g) b)" for g
    using ForStmt.IH(2) by (rule gen_stmts_emitted_aux)
  show ?case
  proof (cases "gen_for_hoist (fresh (indent_level g)) i")
    case (Inl e)
    then show ?thesis
      using gen_for_hoist_emitted[of g i] by (simp add: stmt_lines_def)
  next
    case (Inr r)
    obtain g1 vs where r: "r = (g1, vs)" by (cases r)
    obtain l1 n1 where g1: "g1 = \<lparr>out_lines = l1, indent_level = n1\<rparr>" by (cases g1)
    have h: "gen_for_hoist g i = Inr (g\<lparr>out_lines := out_lines g @ l1\<rparr>, vs)"
      using gen_for_hoist_emitted[of g i] Inr r g1 by simp
    have n1: "n1 = indent_level g"
      using gen_for_hoist_emitted[of "fresh (indent_level g)" i] Inr r g1
      by (simp add: fresh_def)
    show ?thesis
      unfolding stmt_lines_def
      using Inr r g1 n1 h
      by (cases "gen_for_header vs i c p"; cases "block_lines (Suc (indent_level g)) b")
         (simp_all add: b fresh_def emit_def indent_inc_def indent_dec_def)
  qed
next
  case (ReturnStmt r)
  show ?case
    by (simp add: stmt_lines_def fresh_def emit_def split: sum.splits option.splits)
next
  case OtherStmt
  show ?case by (simp add: stmt_lines_def fresh_def)
qed

lemma gen_stmts_emitted:
  "gen_stmts g sts = emitted g (block_lines (indent_level g) sts)"
  by (rule gen_stmts_emitted_aux) (rule gen_stmt_emitted)

subsection \<open>The fallback return of a function\<close>

lemma is_ReturnStmt_iff: "is_ReturnStmt s \<longleftrightarrow> (\<exists>r. s = ReturnStmt r)"
  by (cases s) simp_all

lemma list_ex_ReturnStmt: "list_ex is_ReturnStmt sts \<longleftrightarrow> (\<exists>r. ReturnStmt r \<in> set sts)"
  by (auto simp: list_ex_iff is_ReturnStmt_iff)

lemma gen_function_appends:
  "gen_function g f =
     (case block_lines (Suc (indent_level g)) (body f) of
        Inl e \<Rightarrow> Inl e
      | Inr ls \<Rightarrow>
          Inr (g\<lparr>out_lines := out_lines g
                 @ [indent (indent_level g) @ map_type (return_type f) @ '' '' @ name f @ ''(''
                      @ gen_params (params f) @ '') {'']
                 @ ls
                 @ (if return_type f \<noteq> ''void'' \<and> (\<forall>r. ReturnStmt r \<notin> set (body f))
                    then [indent (Suc (indent_level g)) @ ''return 0;''] else [])
                 @ [indent (indent_level g) @ ''}'']\<rparr>))"
  by (cases "block_lines (Suc (indent_level g)) (body f)")
     (simp_all add: gen_function_def Let_def gen_stmts_emitted list_ex_ReturnStmt
        emit_def indent_inc_def indent_dec_def)

text \<open>
  Claim C1. \<open>gen_function\<close> appends the signature line, the lowered body, and the closing
  brace; between the body and the brace it appends exactly one line \<open>return 0;\<close> when the
  declared return type is not \<open>void\<close> and no element of the immediate statement list of
  the body is a \<open>ReturnStmt\<close>, and nothing otherwise. Only the immediate list is
  inspected: a return nested in an \<open>if\<close> or a loop does not count, so such a function
  still gets the fallback.
\<close>

theorem gen_function_fallback_return:
  "gen_function g f =
     (case block_lines (Suc (indent_level g)) (body f) of
        Inl e \<Rightarrow> Inl e
      | Inr ls \<Rightarrow>
          Inr (g\<lparr>out_lines := out_lines g
                 @ [indent (indent_level g) @ map_type (return_type f) @ '' '' @ name f @ ''(''
                      @ gen_params (params f) @ '') {'']
                 @ ls
                 @ (if return_type f \<noteq> ''void'' \<and> (\<forall>r. ReturnStmt r \<notin> set (body f))
                    then [indent (Suc (indent_level g)) @ ''return 0;''] else [])
                 @ [indent (indent_level g) @ ''}'']\<rparr>))"
  by (rule gen_function_appends)

theorem gen_function_fallback_return_witness:
  "gen_function (fresh 0)
     \<lparr>return_type = ''int'', name = ''f'', params = [],
      body = [IfStmt (VarRef ''x'') [ReturnStmt (Some (Literal (VInt 1)))] None]\<rparr>
   = Inr \<lparr>out_lines = [''int f(void) {'', ''    if (x) {'', ''        return 1;'', ''    }'',
                         ''    return 0;'', ''}''],
          indent_level = 0\<rparr>
   \<and> gen_function (fresh 0)
     \<lparr>return_type = ''int'', name = ''f'', params = [],
      body = [ReturnStmt (Some (Literal (VInt 1)))]\<rparr>
   = Inr \<lparr>out_lines = [''int f(void) {'', ''    return 1;'', ''}''], indent_level = 0\<rparr>
   \<and> gen_function (fresh 0)
     \<lparr>return_type = ''void'', name = ''f'', params = [], body = []\<rparr>
   = Inr \<lparr>out_lines = [''void f(void) {'', ''}''], indent_level = 0\<rparr>"
proof -
  have b1: "block_lines (Suc 0) [IfStmt (VarRef ''x'') [ReturnStmt (Some (Literal (VInt 1)))] None]
        = Inr [''    if (x) {'', ''        return 1;'', ''    }'']"
    by (simp add: block_lines_def fresh_def emit_def indent_inc_def indent_dec_def indent_def
          fmt_def gen_literal_def str_int_def digit_char_def)
  have b2: "block_lines (Suc 0) [ReturnStmt (Some (Literal (VInt 1)))] = Inr [''    return 1;'']"
    by (simp add: block_lines_def fresh_def emit_def indent_def
          fmt_def gen_literal_def str_int_def digit_char_def)
  have b3: "block_lines (Suc 0) [] = Inr []"
    by (simp add: block_lines_def fresh_def)
  show ?thesis
    using gen_function_fallback_return[of "fresh 0"
        "\<lparr>return_type = ''int'', name = ''f'', params = [],
          body = [IfStmt (VarRef ''x'') [ReturnStmt (Some (Literal (VInt 1)))] None]\<rparr>"]
      gen_function_fallback_return[of "fresh 0"
        "\<lparr>return_type = ''int'', name = ''f'', params = [],
          body = [ReturnStmt (Some (Literal (VInt 1)))]\<rparr>"]
      gen_function_fallback_return[of "fresh 0"
        "\<lparr>return_type = ''void'', name = ''f'', params = [], body = []\<rparr>"]
    by (simp add: b1 b2 b3 fresh_def indent_def map_type_def gen_params_def)
qed

subsection \<open>Variable declarations\<close>

lemma gen_vardecl_lines:
  assumes "\<forall>(nm, init) \<in> set names. \<forall>e. init = Some e \<longrightarrow> \<not> isl (gen_expr e)"
  shows "gen_vardecl c_type g names =
     Inr (g\<lparr>out_lines := out_lines g @
            map (\<lambda>(nm, init). indent (indent_level g) @ c_type @ '' '' @ nm @
                   (case init of None \<Rightarrow> '';''
                    | Some e \<Rightarrow> '' = '' @ fmt (projr (gen_expr e)) @ '';'')) names\<rparr>)"
  using assms
proof (induction names arbitrary: g)
  case Nil
  show ?case by simp
next
  case (Cons p names)
  obtain nm i where p: "p = (nm, i)" by (cases p)
  show ?case
  proof (cases i)
    case None
    then show ?thesis using Cons p by (simp add: emit_def)
  next
    case (Some e)
    then obtain x where x: "gen_expr e = Inr x"
      using Cons.prems p by (cases "gen_expr e") auto
    show ?thesis using Cons p Some x by (simp add: emit_def)
  qed
qed

lemma gen_vardecl_raises:
  assumes "\<exists>(nm, init) \<in> set names. \<exists>e. init = Some e \<and> isl (gen_expr e)"
  shows "isl (gen_vardecl c_type g names)"
  using assms
proof (induction names arbitrary: g)
  case Nil
  then show ?case by simp
next
  case (Cons p names)
  obtain nm i where p: "p = (nm, i)" by (cases p)
  show ?case
  proof (cases i)
    case None
    then show ?thesis using Cons p by simp
  next
    case (Some e)
    show ?thesis
    proof (cases "gen_expr e")
      case (Inl err)
      then show ?thesis using p Some by simp
    next
      case (Inr x)
      then have "\<exists>(nm, init) \<in> set names. \<exists>e. init = Some e \<and> isl (gen_expr e)"
        using Cons.prems p Some by auto
      then show ?thesis using Cons.IH p Some Inr by simp
    qed
  qed
qed

text \<open>
  Claim C7. A \<open>VarDecl\<close> lowers to one line per declarator, in declarator order: the
  lowered type and the name, followed by \<open>;\<close> when there is no initializer and by
  \<open> = <initializer>;\<close> when there is one. This holds whenever every initializer lowers
  without an exception; when one raises, the statement raises.
\<close>

theorem gen_stmt_vardecl:
  "((\<forall>(nm, init) \<in> set names. \<forall>e. init = Some e \<longrightarrow> \<not> isl (gen_expr e)) \<longrightarrow>
      gen_stmt g (VarDecl vtype names) =
        Inr (g\<lparr>out_lines := out_lines g @
               map (\<lambda>(nm, init). indent (indent_level g) @ map_type vtype @ '' '' @ nm @
                      (case init of None \<Rightarrow> '';''
                       | Some e \<Rightarrow> '' = '' @ fmt (projr (gen_expr e)) @ '';'')) names\<rparr>))
   \<and> ((\<exists>(nm, init) \<in> set names. \<exists>e. init = Some e \<and> isl (gen_expr e)) \<longrightarrow>
      isl (gen_stmt g (VarDecl vtype names)))"
  using gen_vardecl_lines[of names "map_type vtype" g] gen_vardecl_raises[of names "map_type vtype" g]
  by simp

theorem gen_stmt_vardecl_witness:
  "gen_stmt (fresh 1)
     (VarDecl ''float'' [(''a'', None), (''b'', Some (Literal (VInt 2))),
                         (''c'', Some (BinaryExpr (VarRef ''b'') ''+'' (Literal (VInt 1))))])
   = Inr \<lparr>out_lines = [''    double a;'', ''    double b = 2;'', ''    double c = (b + 1);''],
          indent_level = 1\<rparr>
   \<and> isl (gen_stmt (fresh 1)
            (VarDecl ''int'' [(''a'', None), (''b'', Some (FuncCall ''f'' [OtherExpr]))]))"
  using gen_stmt_vardecl[of "[(''a'', None), (''b'', Some (Literal (VInt 2))),
                         (''c'', Some (BinaryExpr (VarRef ''b'') ''+'' (Literal (VInt 1))))]"
           "fresh 1" "''float''"]
     gen_stmt_vardecl[of "[(''a'', None), (''b'', Some (FuncCall ''f'' [OtherExpr]))]" "fresh 1" "''int''"]
  by (simp add: fresh_def indent_def map_type_def fmt_def gen_literal_def str_int_def
        digit_char_def must_str_def)

subsection \<open>Calls of the output built-in\<close>

lemma gen_print_non_literal:
  "(\<forall>v. arg \<noteq> Literal v) \<Longrightarrow>
     gen_print arg s = ''printf('' @ [dq] @ ''%d'' @ [bs, CHR ''n'', dq] @ '', '' @ s @ '')''"
  by (cases arg) (simp_all add: gen_print_def c_format_def)

text \<open>
  Claim C3. A call of \<open>print\<close> with no argument lowers to \<open>printf("\n")\<close>. With an
  argument that is a \<open>Literal\<close>, the format is chosen by the kind of the literal's value:
  \<open>%s\<close> for a string, \<open>%f\<close> for a float, \<open>%s\<close> with the texts true and false for a
  boolean, \<open>%d\<close> for an integer. With any argument that is not a \<open>Literal\<close> the format
  is \<open>%d\<close>, whatever the expression is.
\<close>

theorem gen_expr_print:
  "gen_expr (FuncCall ''print'' []) = Inr (Some (''printf('' @ [dq, bs, CHR ''n'', dq] @ '')''))
   \<and> gen_expr (FuncCall ''print'' [Literal (VStr s)]) =
       Inr (Some (''printf('' @ [dq] @ ''%s'' @ [bs, CHR ''n'', dq] @ '', ''
                  @ gen_literal (VStr s) @ '')''))
   \<and> gen_expr (FuncCall ''print'' [Literal (VFloat r)]) =
       Inr (Some (''printf('' @ [dq] @ ''%f'' @ [bs, CHR ''n'', dq] @ '', ''
                  @ gen_literal (VFloat r) @ '')''))
   \<and> gen_expr (FuncCall ''print'' [Literal (VBool b)]) =
       Inr (Some (''printf('' @ [dq] @ ''%s'' @ [bs, CHR ''n'', dq] @ '', ''
                  @ gen_literal (VBool b) @ '' ? '' @ [dq] @ ''true'' @ [dq] @ '' : ''
                  @ [dq] @ ''false'' @ [dq] @ '')''))
   \<and> gen_expr (FuncCall ''print'' [Literal (VInt i)]) =
       Inr (Some (''printf('' @ [dq] @ ''%d'' @ [bs, CHR ''n'', dq] @ '', ''
                  @ gen_literal (VInt i) @ '')''))
   \<and> ((\<forall>v. arg \<noteq> Literal v) \<longrightarrow>
        gen_expr (FuncCall ''print'' [arg]) =
          (case gen_expr arg of
             Inl err \<Rightarrow> Inl err
           | Inr x \<Rightarrow>
               Inr (Some (''printf('' @ [dq] @ ''%d'' @ [bs, CHR ''n'', dq] @ '', ''
                          @ fmt x @ '')''))))"
proof -
  have "(\<forall>v. arg \<noteq> Literal v) \<longrightarrow>
        gen_expr (FuncCall ''print'' [arg]) =
          (case gen_expr arg of
             Inl err \<Rightarrow> Inl err
           | Inr x \<Rightarrow>
               Inr (Some (''printf('' @ [dq] @ ''%d'' @ [bs, CHR ''n'', dq] @ '', ''
                          @ fmt x @ '')'')))"
    by (cases "gen_expr arg") (simp_all add: gen_print_non_literal)
  then show ?thesis
    by (simp add: gen_print_def c_format_def fmt_def)
qed

theorem gen_expr_print_witness:
  "gen_expr (FuncCall ''print'' [VarRef ''x'']) =
     Inr (Some (''printf('' @ [dq] @ ''%d'' @ [bs, CHR ''n'', dq] @ '', x)''))
   \<and> gen_expr (FuncCall ''print'' [FuncCall ''scale'' [Literal (VFloat ''1.5'')]]) =
     Inr (Some (''printf('' @ [dq] @ ''%d'' @ [bs, CHR ''n'', dq] @ '', scale(1.5))''))
   \<and> gen_expr (FuncCall ''print'' [Literal (VStr ''hi'')]) =
     Inr (Some (''printf('' @ [dq] @ ''%s'' @ [bs, CHR ''n'', dq] @ '', '' @ [dq] @ ''hi'' @ [dq] @ '')''))"
  using gen_expr_print[of "''hi''" undefined undefined undefined "VarRef ''x''"]
    gen_expr_print[of undefined undefined undefined undefined
       "FuncCall ''scale'' [Literal (VFloat ''1.5'')]"]
  by (simp add: fmt_def gen_literal_def must_str_def replace_char_def dq_def bs_def nl_def)

subsection \<open>For loops\<close>

text \<open>
  Claim C2. The initializers of the declarators of a \<open>for\<close> loop's init clause are
  collected in \<open>init_vars\<close> and joined with \<open>"; "\<close>. With two initializers the lowered
  header therefore has four clauses: the second initializer stands where the condition
  belongs, not in the init slot. The theorem evaluates the generator on
  \<^verbatim>\<open>for (int i = 0, j = 10; i < j; i = i + 1) { }\<close>.
\<close>

theorem gen_stmt_for_two_initializers:
  "gen_stmt (fresh 0)
     (ForStmt (Some (VarDecl ''int'' [(''i'', Some (Literal (VInt 0))),
                                      (''j'', Some (Literal (VInt 10)))]))
        (Some (BinaryExpr (VarRef ''i'') ''<'' (VarRef ''j'')))
        (Some (AssignExpr ''i'' (BinaryExpr (VarRef ''i'') ''+'' (Literal (VInt 1)))))
        [])
   = Inr \<lparr>out_lines = [''int i;'', ''int j;'',
                         ''for (i = 0; j = 10; (i < j); i = (i + 1)) {'', ''}''],
          indent_level = 0\<rparr>"
  by (simp add: fresh_def gen_for_hoist_def gen_for_header_def for_init_str_def for_cond_str_def
        for_post_str_def emit_def indent_inc_def indent_dec_def indent_def map_type_def fmt_def
        gen_literal_def str_int_def digit_char_def)

subsection \<open>The structure of the generated module\<close>

lemma must_strs_Some: "must_strs (map Some ss) = Inr ss"
  by (induction ss) (simp_all add: must_str_def)

lemma gen_expr_known:
  "known_expr e \<Longrightarrow> \<exists>s. gen_expr e = Inr (Some s)"
  "list_all known_expr es \<Longrightarrow> \<exists>ss. gen_exprs es = Inr (map Some ss)"
proof (induction e and es rule: gen_expr_gen_exprs.induct)
  case (6 n args)
  show ?case
  proof (cases "n = ''print''")
    case True
    show ?thesis
    proof (cases args)
      case Nil
      then show ?thesis using True by simp
    next
      case (Cons a as)
      then obtain s where "gen_expr a = Inr (Some s)"
        using "6.IH"(1)[OF True Cons] "6.prems" by auto
      then show ?thesis using True Cons by simp
    qed
  next
    case False
    show ?thesis
    proof (cases "n = ''input''")
      case True
      then show ?thesis by simp
    next
      case inp: False
      obtain ss where "gen_exprs args = Inr (map Some ss)"
        using "6.IH"(2)[OF False inp] "6.prems" by auto
      then show ?thesis using False inp by (simp add: must_strs_Some)
    qed
  qed
next
  case (9 a as)
  then obtain s ss where "gen_expr a = Inr (Some s)" "gen_exprs as = Inr (map Some ss)"
    by auto
  then have "gen_exprs (a # as) = Inr (map Some (s # ss))" by simp
  then show ?case by blast
qed auto


lemma block_lines_Nil: "block_lines n [] = Inr []"
  by (simp add: block_lines_def fresh_def)

lemma block_lines_Cons:
  "block_lines n (st # sts) =
     (case stmt_lines n st of Inl e \<Rightarrow> Inl e
      | Inr l1 \<Rightarrow> (case block_lines n sts of Inl e \<Rightarrow> Inl e | Inr l2 \<Rightarrow> Inr (l1 @ l2)))"
proof -
  have "block_lines n (st # sts)
        = lines_of (case gen_stmt (fresh n) st of Inl e \<Rightarrow> Inl e | Inr g1 \<Rightarrow> gen_stmts g1 sts)"
    by (simp add: block_lines_def)
  also have "\<dots> = lines_of (case emitted (fresh n) (stmt_lines n st) of Inl e \<Rightarrow> Inl e
                            | Inr g1 \<Rightarrow> emitted g1 (block_lines (indent_level g1) sts))"
    using gen_stmt_emitted[of "fresh n" st]
    by (cases "stmt_lines n st") (simp_all add: gen_stmts_emitted fresh_def)
  also have "\<dots> = (case stmt_lines n st of Inl e \<Rightarrow> Inl e
      | Inr l1 \<Rightarrow> (case block_lines n sts of Inl e \<Rightarrow> Inl e | Inr l2 \<Rightarrow> Inr (l1 @ l2)))"
    by (cases "stmt_lines n st"; cases "block_lines n sts") (simp_all add: fresh_def)
  finally show ?thesis .
qed

lemma block_lines_known:
  assumes "\<And>st n. st \<in> set sts \<Longrightarrow> \<exists>ls. stmt_lines n st = Inr ls"
  shows "\<exists>ls. block_lines n sts = Inr ls"
  using assms
proof (induction sts)
  case Nil
  show ?case by (simp add: block_lines_Nil)
next
  case (Cons st sts)
  obtain l1 where "stmt_lines n st = Inr l1" using Cons.prems[of st n] by auto
  moreover obtain l2 where "block_lines n sts = Inr l2" using Cons by auto
  ultimately show ?case by (simp add: block_lines_Cons)
qed

lemma gen_vardecl_known:
  "list_all (\<lambda>(nm, init). known_opt_expr init) names \<Longrightarrow> \<exists>g'. gen_vardecl t g names = Inr g'"
proof (induction names arbitrary: g)
  case Nil
  show ?case by simp
next
  case (Cons p names)
  obtain nm i where p: "p = (nm, i)" by (cases p)
  show ?case
  proof (cases i)
    case None
    then show ?thesis using Cons p by simp
  next
    case (Some e)
    then obtain s where "gen_expr e = Inr (Some s)"
      using Cons.prems p gen_expr_known(1)[of e] by (auto simp: known_opt_expr_def)
    then show ?thesis using Cons p Some by simp
  qed
qed

lemma gen_for_decls_known:
  "list_all (\<lambda>(nm, init). known_opt_expr init) names
     \<Longrightarrow> \<exists>g' vs'. gen_for_decls t g vs names = Inr (g', vs')"
proof (induction names arbitrary: g vs)
  case Nil
  show ?case by simp
next
  case (Cons p names)
  obtain nm i where p: "p = (nm, i)" by (cases p)
  show ?case
  proof (cases i)
    case None
    then show ?thesis using Cons p by simp
  next
    case (Some e)
    then obtain s where "gen_expr e = Inr (Some s)"
      using Cons.prems p gen_expr_known(1)[of e] by (auto simp: known_opt_expr_def)
    then show ?thesis using Cons p Some by simp
  qed
qed

lemma gen_for_hoist_known:
  "(case init of None \<Rightarrow> True | Some s \<Rightarrow> known_stmt s) \<Longrightarrow> \<exists>r. gen_for_hoist g init = Inr r"
  by (auto simp: gen_for_hoist_def gen_for_decls_known split: option.splits stmt.splits)

lemma gen_opt_expr_known:
  "known_opt_expr eo \<Longrightarrow> \<exists>x. for_cond_str eo = Inr x"
  "known_opt_expr eo \<Longrightarrow> \<exists>x. for_post_str eo = Inr x"
  using gen_expr_known(1)
  by (fastforce simp: known_opt_expr_def for_cond_str_def for_post_str_def split: option.splits)+

lemma for_init_str_known:
  "(case init of None \<Rightarrow> True | Some s \<Rightarrow> known_stmt s) \<Longrightarrow> \<exists>x. for_init_str vs init = Inr x"
  using gen_expr_known(1)
  by (fastforce simp: for_init_str_def split: option.splits stmt.splits)

lemma gen_for_header_known:
  assumes "case init of None \<Rightarrow> True | Some s \<Rightarrow> known_stmt s" "known_opt_expr c" "known_opt_expr p"
  shows "\<exists>h. gen_for_header vs init c p = Inr h"
proof -
  obtain x y z where "for_init_str vs init = Inr x" "for_cond_str c = Inr y" "for_post_str p = Inr z"
    using assms for_init_str_known[of init vs] gen_opt_expr_known(1)[of c] gen_opt_expr_known(2)[of p]
    by blast
  then show ?thesis by (simp add: gen_for_header_def)
qed

lemma stmt_lines_known:
  "known_stmt st \<Longrightarrow> \<exists>ls. stmt_lines n st = Inr ls"
proof (induction st arbitrary: n)
  case (VarDecl t ns)
  then show ?case
    using gen_vardecl_known[of ns "map_type t" "fresh n"] by (auto simp: stmt_lines_def)
next
  case (ExprStmt e)
  then show ?case
    using gen_expr_known(1)[of e] by (auto simp: stmt_lines_def must_str_def)
next
  case (IfStmt c tb eb)
  obtain s where c: "gen_expr c = Inr (Some s)" using IfStmt.prems gen_expr_known(1)[of c] by auto
  have "\<exists>ls. block_lines (Suc n) tb = Inr ls"
    using IfStmt.IH(1) IfStmt.prems by (intro block_lines_known) (auto simp: list_all_iff)
  then obtain l1 where l1: "block_lines (Suc n) tb = Inr l1" by blast
  show ?case
  proof (cases eb)
    case None
    then show ?thesis
      by (simp add: stmt_lines_def c l1 gen_stmts_emitted fresh_def emit_def indent_inc_def)
  next
    case (Some sts)
    have "\<exists>ls. block_lines (Suc n) sts = Inr ls"
      using IfStmt.IH(2) IfStmt.prems Some by (intro block_lines_known) (auto simp: list_all_iff)
    then obtain l2 where l2: "block_lines (Suc n) sts = Inr l2" by blast
    show ?thesis
      by (simp add: stmt_lines_def c l1 l2 Some gen_stmts_emitted fresh_def emit_def indent_inc_def
            indent_dec_def)
  qed
next
  case (WhileStmt c b)
  obtain s where c: "gen_expr c = Inr (Some s)" using WhileStmt.prems gen_expr_known(1)[of c] by auto
  have "\<exists>ls. block_lines (Suc n) b = Inr ls"
    using WhileStmt.IH WhileStmt.prems by (intro block_lines_known) (auto simp: list_all_iff)
  then obtain l1 where l1: "block_lines (Suc n) b = Inr l1" by blast
  show ?case
    by (simp add: stmt_lines_def c l1 gen_stmts_emitted fresh_def emit_def indent_inc_def)
next
  case (ForStmt i c p b)
  obtain g1 vs where h: "gen_for_hoist (fresh n) i = Inr (g1, vs)"
    using ForStmt.prems gen_for_hoist_known[of i "fresh n"] by auto
  have n1: "indent_level g1 = n"
    using gen_for_hoist_emitted[of "fresh n" i] h by (cases g1) (simp add: fresh_def)
  obtain hd where hd: "gen_for_header vs i c p = Inr hd"
    using ForStmt.prems gen_for_header_known[of i c p vs] by auto
  have "\<exists>ls. block_lines (Suc n) b = Inr ls"
    using ForStmt.IH(2) ForStmt.prems by (intro block_lines_known) (auto simp: list_all_iff)
  then obtain l1 where l1: "block_lines (Suc n) b = Inr l1" by blast
  show ?case
    by (simp add: stmt_lines_def h hd n1 l1 gen_stmts_emitted emit_def indent_inc_def)
next
  case (ReturnStmt r)
  then show ?case
    using gen_expr_known(1)
    by (cases r) (fastforce simp: stmt_lines_def known_opt_expr_def)+
next
  case OtherStmt
  then show ?case by simp
qed

lemma block_lines_known_all:
  "list_all known_stmt sts \<Longrightarrow> \<exists>ls. block_lines n sts = Inr ls"
  by (intro block_lines_known stmt_lines_known) (simp add: list_all_iff)


lemma function_lines_eq:
  "function_lines n f =
     (case block_lines (Suc n) (body f) of
        Inl e \<Rightarrow> Inl e
      | Inr ls \<Rightarrow>
          Inr ([indent n @ map_type (return_type f) @ '' '' @ name f @ ''(''
                  @ gen_params (params f) @ '') {'']
               @ ls
               @ (if return_type f \<noteq> ''void'' \<and> (\<forall>r. ReturnStmt r \<notin> set (body f))
                  then [indent (Suc n) @ ''return 0;''] else [])
               @ [indent n @ ''}'']))"
  unfolding function_lines_def gen_function_appends
  by (cases "block_lines (Suc n) (body f)") (simp_all add: fresh_def)

lemma gen_function_emitted:
  "gen_function g f = emitted g (function_lines (indent_level g) f)"
  unfolding function_lines_eq gen_function_appends
  by (cases "block_lines (Suc (indent_level g)) (body f)") simp_all

lemma function_lines_known:
  "list_all known_stmt (body f) \<Longrightarrow> \<exists>ls. function_lines n f = Inr ls"
  using block_lines_known_all[of "body f" "Suc n"] by (auto simp: function_lines_eq)

lemma gen_forward_decls_lines:
  "gen_forward_decls g fs =
     g\<lparr>out_lines := out_lines g @
          map (\<lambda>f. indent (indent_level g) @ map_type (return_type f) @ '' '' @ name f @ ''(''
                      @ gen_params (params f) @ '');'') fs\<rparr>"
  by (induction fs arbitrary: g) (simp_all add: emit_def)

lemma gen_functions_lines:
  "\<forall>f \<in> set fs. \<not> isl (function_lines (indent_level g) f) \<Longrightarrow>
     gen_functions g fs =
       Inr (g\<lparr>out_lines := out_lines g @
               concat (map (\<lambda>f. projr (function_lines (indent_level g) f) @ [indent (indent_level g)])
                           fs)\<rparr>)"
proof (induction fs arbitrary: g)
  case Nil
  show ?case by simp
next
  case (Cons f fs)
  obtain ls where ls: "function_lines (indent_level g) f = Inr ls"
    using Cons.prems by (cases "function_lines (indent_level g) f") auto
  let ?g1 = "emit (g\<lparr>out_lines := out_lines g @ ls\<rparr>) []"
  have lvl: "indent_level ?g1 = indent_level g" by (simp add: emit_def)
  have "gen_functions g (f # fs) = gen_functions ?g1 fs"
    by (simp add: gen_function_emitted ls)
  also have "\<dots> = Inr (?g1\<lparr>out_lines := out_lines ?g1 @
               concat (map (\<lambda>f. projr (function_lines (indent_level g) f) @ [indent (indent_level g)])
                           fs)\<rparr>)"
    using Cons.IH[of ?g1] Cons.prems unfolding lvl by simp
  finally show ?case by (simp add: ls emit_def)
qed

lemma gen_functions_raises:
  "\<exists>f \<in> set fs. isl (function_lines (indent_level g) f) \<Longrightarrow> isl (gen_functions g fs)"
proof (induction fs arbitrary: g)
  case Nil
  then show ?case by simp
next
  case (Cons f fs)
  show ?case
  proof (cases "function_lines (indent_level g) f")
    case (Inl e)
    then show ?thesis by (simp add: gen_function_emitted)
  next
    case (Inr ls)
    let ?g1 = "emit (g\<lparr>out_lines := out_lines g @ ls\<rparr>) []"
    have lvl: "indent_level ?g1 = indent_level g" by (simp add: emit_def)
    have "\<exists>f \<in> set fs. isl (function_lines (indent_level ?g1) f)"
      using Cons.prems Inr unfolding lvl by auto
    then have "isl (gen_functions ?g1 fs)" by (rule Cons.IH)
    then show ?thesis by (simp add: gen_function_emitted Inr)
  qed
qed

lemma indent_0: "indent 0 = []"
  by (simp add: indent_def)

lemma generate_lines:
  "\<forall>f \<in> set (funcs p). \<not> isl (function_lines 0 f) \<Longrightarrow>
   generate p =
     Inr (join [nl]
            (headers @ [[]]
             @ map (\<lambda>f. map_type (return_type f) @ '' '' @ name f @ ''(''
                        @ gen_params (params f) @ '');'') (funcs p)
             @ [[]]
             @ concat (map (\<lambda>f. projr (function_lines 0 f) @ [[]]) (funcs p))))"
proof -
  assume ok: "\<forall>f \<in> set (funcs p). \<not> isl (function_lines 0 f)"
  let ?g2 = "emit (gen_forward_decls (emit (fold (\<lambda>h g. emit g h) headers \<lparr>out_lines = [], indent_level = 0\<rparr>) []) (funcs p)) []"
  have g2: "?g2 = \<lparr>out_lines = headers @ [[]]
             @ map (\<lambda>f. map_type (return_type f) @ '' '' @ name f @ ''(''
                        @ gen_params (params f) @ '');'') (funcs p) @ [[]], indent_level = 0\<rparr>"
    by (simp add: gen_forward_decls_lines headers_def emit_def indent_0)
  have "gen_functions ?g2 (funcs p) =
       Inr (?g2\<lparr>out_lines := out_lines ?g2 @
               concat (map (\<lambda>f. projr (function_lines (indent_level ?g2) f) @ [indent (indent_level ?g2)])
                           (funcs p))\<rparr>)"
    by (rule gen_functions_lines) (use ok g2 in simp)
  then show ?thesis
    unfolding generate_def Let_def g2 by (simp add: indent_0)
qed

lemma generate_raises:
  "\<exists>f \<in> set (funcs p). isl (function_lines 0 f) \<Longrightarrow> isl (generate p)"
proof -
  assume bad: "\<exists>f \<in> set (funcs p). isl (function_lines 0 f)"
  let ?g2 = "emit (gen_forward_decls (emit (fold (\<lambda>h g. emit g h) headers \<lparr>out_lines = [], indent_level = 0\<rparr>) []) (funcs p)) []"
  have "indent_level ?g2 = 0"
    by (simp add: gen_forward_decls_lines headers_def emit_def)
  then have "isl (gen_functions ?g2 (funcs p))"
    using bad by (intro gen_functions_raises) simp
  then show ?thesis
    unfolding generate_def Let_def by (cases "gen_functions ?g2 (funcs p)") simp_all
qed


lemma function_lines_ends:
  "function_lines n f = Inr ls \<Longrightarrow>
     hd ls = indent n @ map_type (return_type f) @ '' '' @ name f @ ''('' @ gen_params (params f)
               @ '') {''
     \<and> last ls = indent n @ ''}''"
  by (auto simp: function_lines_eq split: sum.splits)

text \<open>
  Claim C6. When every function lowers without an exception, the generated text is the
  four include directives, an empty line, one forward declaration per function in source
  order, an empty line, and then for each function in source order the lines of its
  definition followed by an empty line, all joined by newlines; when some function raises,
  \<open>generate\<close> raises. A definition starts with the signature that its forward declaration
  carries and ends with the closing brace, and an empty parameter list is rendered as
  \<open>void\<close> in both.
\<close>

theorem generate_structure:
  "((\<forall>f \<in> set (funcs p). \<not> isl (function_lines 0 f)) \<longrightarrow>
      generate p =
        Inr (join [nl]
               (headers @ [[]]
                @ map (\<lambda>f. map_type (return_type f) @ '' '' @ name f @ ''(''
                           @ gen_params (params f) @ '');'') (funcs p)
                @ [[]]
                @ concat (map (\<lambda>f. projr (function_lines 0 f) @ [[]]) (funcs p)))))
   \<and> ((\<exists>f \<in> set (funcs p). isl (function_lines 0 f)) \<longrightarrow> isl (generate p))
   \<and> (\<forall>f ls. function_lines 0 f = Inr ls \<longrightarrow>
         hd ls = map_type (return_type f) @ '' '' @ name f @ ''('' @ gen_params (params f) @ '') {''
         \<and> last ls = ''}'')
   \<and> gen_params [] = ''void''"
  using generate_lines[of p] generate_raises[of p] function_lines_ends[of 0]
  by (simp add: indent_0 gen_params_def)

theorem generate_structure_witness:
  "generate \<lparr>funcs = [\<lparr>return_type = ''int'', name = ''main'', params = [],
                        body = [ReturnStmt (Some (FuncCall ''twice'' [Literal (VInt 2)]))]\<rparr>,
                      \<lparr>return_type = ''int'', name = ''twice'', params = [(''int'', ''n'')],
                        body = [ReturnStmt (Some (BinaryExpr (VarRef ''n'') ''*''
                                                    (Literal (VInt 2))))]\<rparr>]\<rparr>
   = Inr (join [nl]
           [''#include <stdio.h>'', ''#include <stdlib.h>'', ''#include <string.h>'',
            ''#include <stdbool.h>'', [],
            ''int main(void);'', ''int twice(int n);'', [],
            ''int main(void) {'', ''    return twice(2);'', ''}'', [],
            ''int twice(int n) {'', ''    return (n * 2);'', ''}'', []])"
proof -
  let ?main = "\<lparr>return_type = ''int'', name = ''main'', params = [],
                 body = [ReturnStmt (Some (FuncCall ''twice'' [Literal (VInt 2)]))]\<rparr>"
  let ?twice = "\<lparr>return_type = ''int'', name = ''twice'', params = [(''int'', ''n'')],
                  body = [ReturnStmt (Some (BinaryExpr (VarRef ''n'') ''*'' (Literal (VInt 2))))]\<rparr>"
  have m: "function_lines 0 ?main = Inr [''int main(void) {'', ''    return twice(2);'', ''}'']"
    by (simp add: function_lines_def gen_function_def fresh_def emit_def indent_inc_def
          indent_dec_def indent_def map_type_def gen_params_def fmt_def must_str_def
          gen_literal_def str_int_def digit_char_def)
  have t: "function_lines 0 ?twice = Inr [''int twice(int n) {'', ''    return (n * 2);'', ''}'']"
    by (simp add: function_lines_def gen_function_def fresh_def emit_def indent_inc_def
          indent_dec_def indent_def map_type_def gen_params_def fmt_def must_str_def
          gen_literal_def str_int_def digit_char_def)
  show ?thesis
    using generate_structure[of "\<lparr>funcs = [?main, ?twice]\<rparr>"]
    by (simp add: m t headers_def map_type_def gen_params_def)
qed

subsection \<open>Nodes outside the known classes\<close>

lemma generate_known:
  "known_program p \<Longrightarrow> \<exists>txt. generate p = Inr txt"
proof -
  assume "known_program p"
  then have "\<forall>f \<in> set (funcs p). \<not> isl (function_lines 0 f)"
    using function_lines_known[of _ 0] by (fastforce simp: known_program_def list_all_iff)
  then show ?thesis using generate_lines[of p] by blast
qed

text \<open>
  Claim C8, as amended. For a program whose statement and expression nodes are all of the
  known classes, \<open>generate\<close> returns one module text and raises nothing. A statement node
  of no known class makes \<open>gen_stmt\<close> return without emitting anything, and an expression
  node of no known class makes \<open>gen_expr\<close> return \<open>None\<close>; neither raises by itself.
\<close>

theorem generate_total_on_known:
  "(known_program p \<longrightarrow> (\<exists>txt. generate p = Inr txt))
   \<and> gen_stmt g OtherStmt = Inr g
   \<and> gen_expr OtherExpr = Inr None"
  using generate_known[of p] by simp

theorem generate_total_on_known_witness:
  "known_program \<lparr>funcs = [\<lparr>return_type = ''void'', name = ''f'', params = [],
                              body = [ExprStmt (FuncCall ''print'' [VarRef ''x''])]\<rparr>]\<rparr>
   \<and> (\<exists>txt. generate \<lparr>funcs = [\<lparr>return_type = ''void'', name = ''f'', params = [],
                              body = [ExprStmt (FuncCall ''print'' [VarRef ''x''])]\<rparr>]\<rparr> = Inr txt)"
proof -
  have k: "known_program \<lparr>funcs = [\<lparr>return_type = ''void'', name = ''f'', params = [],
                              body = [ExprStmt (FuncCall ''print'' [VarRef ''x''])]\<rparr>]\<rparr>"
    by (simp add: known_program_def)
  show ?thesis
    using k generate_total_on_known[of "\<lparr>funcs = [\<lparr>return_type = ''void'', name = ''f'',
        params = [], body = [ExprStmt (FuncCall ''print'' [VarRef ''x''])]\<rparr>]\<rparr>"]
    by simp
qed

text \<open>
  The claim as stated fails: the program below holds a statement and an expression of no
  known class, and \<open>generate\<close> returns a module in which the statement is missing and
  the expression reads \<open>None\<close>.
\<close>

theorem generate_drops_unknown_counterexample:
  "generate \<lparr>funcs = [\<lparr>return_type = ''void'', name = ''f'', params = [],
                       body = [OtherStmt, ReturnStmt (Some OtherExpr)]\<rparr>]\<rparr>
   = Inr (join [nl]
           [''#include <stdio.h>'', ''#include <stdlib.h>'', ''#include <string.h>'',
            ''#include <stdbool.h>'', [],
            ''void f(void);'', [],
            ''void f(void) {'', ''    return None;'', ''}'', []])"
  by (simp add: generate_def gen_function_def headers_def emit_def indent_inc_def
        indent_dec_def indent_def map_type_def gen_params_def fmt_def)

section \<open>Properties of the tokenizer\<close>

lemma master_match_kind:
  "master_match cs = Some (k, v) \<Longrightarrow>
     k \<in> set [''COMMENT'', ''WHITESPACE'', ''NUMBER'', ''STRING'', ''ID'', ''OP'']"
  by (auto simp: master_match_def split: option.splits)

lemma upper_keyword:
  "v \<in> set KEYWORDS \<Longrightarrow> upper v \<noteq> ''WHITESPACE'' \<and> upper v \<noteq> ''COMMENT''"
proof -
  assume "v \<in> set KEYWORDS"
  then have "length v \<le> 6" by (auto simp: KEYWORDS_def)
  then have "length (upper v) \<le> 6" by (simp add: upper_def)
  then show ?thesis by auto
qed

lemma tokenize_loop_Inr:
  "tokenize_loop src pos toks = Inr out \<Longrightarrow>
     \<exists>new. out = toks @ new @ [(''EOF'', [])]
       \<and> (\<forall>t \<in> set new. fst t \<noteq> ''WHITESPACE'' \<and> fst t \<noteq> ''COMMENT'')"
proof (induction src pos toks rule: tokenize_loop.induct)
  case (1 src pos toks)
  show ?case
  proof (cases "pos < length src")
    case False
    then have "out = toks @ [] @ [(''EOF'', [])]"
      using "1.prems" by (subst (asm) tokenize_loop.simps) simp
    then show ?thesis by (intro exI[of _ "[]"]) simp
  next
    case True
    show ?thesis
    proof (cases "master_match (drop pos src)")
      case None
      then show ?thesis
        using "1.prems" True by (subst (asm) tokenize_loop.simps) simp
    next
      case (Some kv)
      obtain k v where kv: "kv = (k, v)" by (cases kv)
      note m = Some[unfolded kv]
      consider (skip) "k = ''WHITESPACE'' \<or> k = ''COMMENT''"
        | (kw) "\<not> (k = ''WHITESPACE'' \<or> k = ''COMMENT'')" "k = ''ID'' \<and> v \<in> set KEYWORDS"
        | (tok) "\<not> (k = ''WHITESPACE'' \<or> k = ''COMMENT'')" "\<not> (k = ''ID'' \<and> v \<in> set KEYWORDS)"
        by blast
      then show ?thesis
      proof cases
        case skip
        then have "tokenize_loop src (pos + length v) toks = Inr out"
          using "1.prems" True m by (subst (asm) tokenize_loop.simps) simp
        then show ?thesis using "1.IH"(1)[OF True m refl skip] by simp
      next
        case kw
        then have "tokenize_loop src (pos + length v) (toks @ [(upper v, v)]) = Inr out"
          using "1.prems" True m by (subst (asm) tokenize_loop.simps) simp
        then obtain new where new: "out = (toks @ [(upper v, v)]) @ new @ [(''EOF'', [])]"
          "\<forall>t \<in> set new. fst t \<noteq> ''WHITESPACE'' \<and> fst t \<noteq> ''COMMENT''"
          using "1.IH"(2)[OF True m refl kw] by blast
        show ?thesis
          using new upper_keyword[of v] kw
          by (intro exI[of _ "(upper v, v) # new"]) simp
      next
        case tok
        then have "tokenize_loop src (pos + length v) (toks @ [(k, v)]) = Inr out"
          using "1.prems" True m by (subst (asm) tokenize_loop.simps) auto
        then obtain new where new: "out = (toks @ [(k, v)]) @ new @ [(''EOF'', [])]"
          "\<forall>t \<in> set new. fst t \<noteq> ''WHITESPACE'' \<and> fst t \<noteq> ''COMMENT''"
          using "1.IH"(3)[OF True m refl tok] by blast
        show ?thesis
          using new tok
          by (intro exI[of _ "(k, v) # new"]) simp
      qed
    qed
  qed
qed


lemma tokenize_loop_step:
  assumes "pos < length src" and "master_match (drop pos src) = Some (k, v)"
  shows "\<exists>toks'. tokenize_loop src pos toks = tokenize_loop src (pos + length v) toks'"
  using assms by (subst tokenize_loop.simps) auto

lemma tokenize_loop_stuck:
  assumes "pos < length src" and "master_match (drop pos src) = None"
  shows "tokenize_loop src pos toks = Inl (UnexpectedChar pos (src ! pos))"
  using assms by (subst tokenize_loop.simps) simp

lemma tokenize_loop_Inl:
  "tokenize_loop src pos toks = Inl e \<Longrightarrow> scan_pos src pos \<Longrightarrow>
     \<exists>p. scan_pos src p \<and> p < length src \<and> master_match (drop p src) = None
          \<and> e = UnexpectedChar p (src ! p)"
proof (induction src pos toks rule: tokenize_loop.induct)
  case (1 src pos toks)
  show ?case
  proof (cases "pos < length src")
    case False
    then show ?thesis
      using "1.prems" by (subst (asm) tokenize_loop.simps) simp
  next
    case True
    show ?thesis
    proof (cases "master_match (drop pos src)")
      case None
      then have "e = UnexpectedChar pos (src ! pos)"
        using "1.prems"(1) True tokenize_loop_stuck[of pos src toks] by simp
      then show ?thesis using None True "1.prems"(2) by blast
    next
      case (Some kv)
      obtain k v where kv: "kv = (k, v)" by (cases kv)
      note m = Some[unfolded kv]
      have sp: "scan_pos src (pos + length v)"
        using scan_pos.step[OF "1.prems"(2) True m] .
      consider (skip) "k = ''WHITESPACE'' \<or> k = ''COMMENT''"
        | (kw) "\<not> (k = ''WHITESPACE'' \<or> k = ''COMMENT'')" "k = ''ID'' \<and> v \<in> set KEYWORDS"
        | (tok) "\<not> (k = ''WHITESPACE'' \<or> k = ''COMMENT'')" "\<not> (k = ''ID'' \<and> v \<in> set KEYWORDS)"
        by blast
      then show ?thesis
      proof cases
        case skip
        then have "tokenize_loop src (pos + length v) toks = Inl e"
          using "1.prems" True m by (subst (asm) tokenize_loop.simps) simp
        then show ?thesis using "1.IH"(1)[OF True m refl skip] sp by simp
      next
        case kw
        then have "tokenize_loop src (pos + length v) (toks @ [(upper v, v)]) = Inl e"
          using "1.prems" True m by (subst (asm) tokenize_loop.simps) simp
        then show ?thesis using "1.IH"(2)[OF True m refl kw] sp by simp
      next
        case tok
        then have "tokenize_loop src (pos + length v) (toks @ [(k, v)]) = Inl e"
          using "1.prems" True m by (subst (asm) tokenize_loop.simps) auto
        then show ?thesis using "1.IH"(3)[OF True m refl tok] sp by simp
      qed
    qed
  qed
qed

lemma scan_pos_reached:
  "scan_pos src p \<Longrightarrow> \<exists>toks. tokenize src = tokenize_loop src p toks"
proof (induction rule: scan_pos.induct)
  case start
  show ?case by (auto simp: tokenize_def)
next
  case (step p k v)
  then obtain toks where "tokenize src = tokenize_loop src p toks" by blast
  then show ?case
    using tokenize_loop_step[OF step.hyps(2) step.hyps(3), of toks] by auto
qed

lemma tokenize_stuck:
  assumes "scan_pos src p" "p < length src" "master_match (drop p src) = None"
  shows "tokenize src = Inl (UnexpectedChar p (src ! p))"
  using scan_pos_reached[OF assms(1)] tokenize_loop_stuck[OF assms(2,3)] by auto

lemma master_match_stray:
  "c \<notin> set ([CHR '' '', CHR 0x09, CHR 0x0D, CHR 0x0A, CHR 0x22] @ ''0123456789''
              @ ''ABCDEFGHIJKLMNOPQRSTUVWXYZabcdefghijklmnopqrstuvwxyz_''
              @ ''+-*/%<>=!;(),{}&|'')
   \<Longrightarrow> master_match (c # cs) = None"
  by (simp add: master_match_def match_comment_def match_whitespace_def match_number_def
        match_string_def match_id_def match_op_def is_space_def is_digit_def is_id_start_def
        dq_def Let_def)

lemma master_match_unterminated:
  "string_body cs = None \<Longrightarrow> master_match (dq # cs) = None"
  by (simp add: master_match_def match_comment_def match_whitespace_def match_number_def
        match_string_def match_id_def match_op_def is_space_def is_digit_def is_id_start_def
        dq_def Let_def)


text \<open>
  Claim C9. The positions of the claim are those at which the loop tries the rules, the
  values of its variable \<open>pos\<close> (\<open>scan_pos\<close>). When the loop arrives at a position of
  the text at which no rule matches, \<open>tokenize\<close> raises the error that carries that
  position and the character there, and returns no tokens; it raises in no other case.
  When it returns, the list ends with the \<open>EOF\<close> token and holds no \<open>WHITESPACE\<close> and no
  \<open>COMMENT\<close> token before it. No rule matches at a character that occurs in no rule, nor
  at a double quote that opens a string with no closing quote.
\<close>

theorem tokenize_fails_or_completes:
  "(scan_pos src p \<and> p < length src \<and> master_match (drop p src) = None \<longrightarrow>
      tokenize src = Inl (UnexpectedChar p (src ! p)))
   \<and> (tokenize src = Inl e \<longrightarrow>
        (\<exists>q. scan_pos src q \<and> q < length src \<and> master_match (drop q src) = None
              \<and> e = UnexpectedChar q (src ! q)))
   \<and> (tokenize src = Inr toks \<longrightarrow>
        (\<exists>ts. toks = ts @ [(''EOF'', [])]
              \<and> (\<forall>t \<in> set ts. fst t \<noteq> ''WHITESPACE'' \<and> fst t \<noteq> ''COMMENT'')))
   \<and> (c \<notin> set ([CHR '' '', CHR 0x09, CHR 0x0D, CHR 0x0A, CHR 0x22] @ ''0123456789''
                  @ ''ABCDEFGHIJKLMNOPQRSTUVWXYZabcdefghijklmnopqrstuvwxyz_''
                  @ ''+-*/%<>=!;(),{}&|'') \<longrightarrow>
        master_match (c # cs) = None)
   \<and> (string_body cs = None \<longrightarrow> master_match (dq # cs) = None)"
proof -
  have 1: "scan_pos src p \<and> p < length src \<and> master_match (drop p src) = None \<longrightarrow>
      tokenize src = Inl (UnexpectedChar p (src ! p))"
    using tokenize_stuck by blast
  have 2: "tokenize src = Inl e \<longrightarrow>
        (\<exists>q. scan_pos src q \<and> q < length src \<and> master_match (drop q src) = None
              \<and> e = UnexpectedChar q (src ! q))"
    unfolding tokenize_def using tokenize_loop_Inl[OF _ scan_pos.start] by blast
  have 3: "tokenize src = Inr toks \<longrightarrow>
        (\<exists>ts. toks = ts @ [(''EOF'', [])]
              \<and> (\<forall>t \<in> set ts. fst t \<noteq> ''WHITESPACE'' \<and> fst t \<noteq> ''COMMENT''))"
    unfolding tokenize_def using tokenize_loop_Inr[of src 0 "[]" toks] by auto
  show ?thesis
    using 1 2 3 master_match_stray[of c cs] master_match_unterminated[of cs] by blast
qed

lemmas lexer_defs =
  tokenize_def tokenize_loop.simps master_match_def match_comment_def match_whitespace_def
  match_number_def match_string_def match_id_def match_op_def is_space_def is_digit_def
  is_id_start_def is_id_char_def dq_def nl_def bs_def Let_def KEYWORDS_def upper_def upper_char_def

theorem tokenize_fails_or_completes_witness:
  "tokenize ''x = @'' = Inl (UnexpectedChar 4 CHR ''@'')
   \<and> tokenize (''s = '' @ [dq] @ ''ab'') = Inl (UnexpectedChar 4 dq)
   \<and> tokenize ''if (x) // y'' =
       Inr [(''IF'', ''if''), (''OP'', ''(''), (''ID'', ''x''), (''OP'', '')''), (''EOF'', [])]"
proof -
  let ?a = "''x = @''"
  have a1: "scan_pos ?a 1"
    using scan_pos.step[OF scan_pos.start, of ?a "''ID''" "''x''"] by (simp add: lexer_defs)
  have a2: "scan_pos ?a 2"
    using scan_pos.step[OF a1, of "''WHITESPACE''" "'' ''"] by (simp add: lexer_defs eval_nat_numeral)
  have a3: "scan_pos ?a 3"
    using scan_pos.step[OF a2, of "''OP''" "''=''"] by (simp add: lexer_defs eval_nat_numeral)
  have a4: "scan_pos ?a 4"
    using scan_pos.step[OF a3, of "''WHITESPACE''" "'' ''"] by (simp add: lexer_defs eval_nat_numeral)
  have astuck: "master_match (drop 4 ?a) = None"
    using tokenize_fails_or_completes[of _ _ _ _ "CHR ''@''" "[]"] by (simp add: dq_def)
  have a: "tokenize ?a = Inl (UnexpectedChar 4 CHR ''@'')"
    using tokenize_fails_or_completes[of ?a 4] a4 astuck by simp
  let ?b = "''s = '' @ [dq] @ ''ab''"
  have b1: "scan_pos ?b 1"
    using scan_pos.step[OF scan_pos.start, of ?b "''ID''" "''s''"] by (simp add: lexer_defs)
  have b2: "scan_pos ?b 2"
    using scan_pos.step[OF b1, of "''WHITESPACE''" "'' ''"] by (simp add: lexer_defs eval_nat_numeral)
  have b3: "scan_pos ?b 3"
    using scan_pos.step[OF b2, of "''OP''" "''=''"] by (simp add: lexer_defs eval_nat_numeral)
  have b4: "scan_pos ?b 4"
    using scan_pos.step[OF b3, of "''WHITESPACE''" "'' ''"] by (simp add: lexer_defs eval_nat_numeral)
  have bstuck: "master_match (drop 4 ?b) = None"
    using tokenize_fails_or_completes[of _ _ _ _ _ "''ab''"] by (simp add: dq_def bs_def)
  have b: "tokenize ?b = Inl (UnexpectedChar 4 dq)"
    using tokenize_fails_or_completes[of ?b 4] b4 bstuck by simp
  have c: "tokenize ''if (x) // y'' =
       Inr [(''IF'', ''if''), (''OP'', ''(''), (''ID'', ''x''), (''OP'', '')''), (''EOF'', [])]"
    using tokenize_fails_or_completes[of "''if (x) // y''" _ _
        "[(''IF'', ''if''), (''OP'', ''(''), (''ID'', ''x''), (''OP'', '')''), (''EOF'', [])]"]
    by (simp add: lexer_defs)
  show ?thesis using a b c by simp
qed

section \<open>Properties of the parser\<close>

lemma andthen_simps [simp]:
  "andthen None f = None"
  "andthen (Some (Inl e)) f = Some (Inl e)"
  "andthen (Some (Inr x)) f = f x"
  "andthen (check (Inl e)) f = Some (Inl e)"
  "andthen (check (Inr x)) f = f x"
  "andthen (returns x) f = f x"
  by (simp_all add: andthen_def check_def returns_def)

lemma vardecl_for_names_eq:
  "vardecl_for_names B tokens n names pos = vardecl_names B tokens n names pos"
proof (induction n arbitrary: names pos)
  case 0
  show ?case by simp
next
  case (Suc n)
  show ?case by (simp add: Suc.IH cong: if_cong)
qed

lemma parse_vardecl_for_eq:
  "parse_vardecl_for B tokens fuel pos = parse_vardecl B tokens fuel pos"
  by (simp add: parse_vardecl_for_def parse_vardecl_def vardecl_for_names_eq)

lemma peek_drop: "drop p tokens = t # ts \<Longrightarrow> peek tokens p = Inr t"
proof -
  assume d: "drop p tokens = t # ts"
  then have "p < length tokens" by (cases "p < length tokens") auto
  moreover have "tokens ! p = t" using d by (rule nth_via_drop)
  ultimately show ?thesis by (simp add: peek_def)
qed

lemma drop_Suc_Cons: "drop p tokens = t # ts \<Longrightarrow> drop (Suc p) tokens = ts"
  by (metis drop_Suc list.sel(3) tl_drop)

lemma PRECEDENCE_not_paren:
  "PRECEDENCE s = Some q \<Longrightarrow> s \<noteq> ''('' \<and> s \<noteq> ''='' \<and> s \<in> set [''||'', ''&&'', ''=='', ''!='', ''<'', ''>'', ''<='', ''>='', ''+'', ''-'', ''*'', ''/'', ''%'']"
  by (auto simp: PRECEDENCE_def split: if_splits)


lemma parse_identifier:
  assumes d: "drop p tokens = (''ID'', a) # t1 # ts"
    and a: "a \<notin> set [''+'', ''-'', ''!'']"
    and t1: "snd t1 \<noteq> ''(''" "snd t1 \<noteq> ''=''"
    and stop: "\<forall>q. PRECEDENCE (snd t1) = Some q \<longrightarrow> q < m"
  shows "parse_expr B tokens (Suc (Suc k)) m p = Some (Inr (VarRef a, p + 1))"
proof -
  have p0: "peek tokens p = Inr (''ID'', a)" using d by (rule peek_drop)
  have d1: "drop (Suc p) tokens = t1 # ts" using d by (rule drop_Suc_Cons)
  have p1: "peek tokens (Suc p) = Inr t1" using d1 by (rule peek_drop)
  have prim: "parse_primary B tokens (Suc k) p = Some (Inr (VarRef a, p + 1))"
    using p0 p1 t1 by (simp add: returns_def)
  have bin: "parse_binary B tokens (Suc k) m (VarRef a) (p + 1) = Some (Inr (VarRef a, p + 1))"
    using p1 stop by (cases "PRECEDENCE (snd t1)") (simp_all add: returns_def)
  show ?thesis using p0 a prim bin by simp
qed

lemma parse_binary_chain:
  assumes "drop p tokens = concat (map (\<lambda>(opr, a). [(''OP'', opr), (''ID'', a)]) chain) @ t_end # post"
    and "\<forall>(opr, a) \<in> set chain. PRECEDENCE opr = Some prec \<and> a \<notin> set [''+'', ''-'', ''!'']"
    and "chain \<noteq> [] \<longrightarrow> m \<le> prec"
    and "snd t_end \<noteq> ''(''" "snd t_end \<noteq> ''=''"
    and "\<forall>q. PRECEDENCE (snd t_end) = Some q \<longrightarrow> q < m"
    and "length chain + 2 \<le> n"
  shows "parse_binary B tokens n m lhs p =
           Some (Inr (foldl (\<lambda>l (opr, a). BinaryExpr l opr (VarRef a)) lhs chain,
                      p + 2 * length chain))"
  using assms
proof (induction chain arbitrary: p n lhs)
  case Nil
  then obtain k where n: "n = Suc k" by (cases n) auto
  have "peek tokens p = Inr t_end" using Nil.prems(1) by (simp add: peek_drop)
  then show ?case
    using Nil.prems(6) unfolding n
    by (cases "PRECEDENCE (snd t_end)") (simp_all add: returns_def)
next
  case (Cons oa chain)
  obtain opr a where oa: "oa = (opr, a)" by (cases oa)
  obtain k where n: "n = Suc (Suc (Suc k))" and k: "length chain \<le> k"
    using Cons.prems(7) by (cases n; cases "n - 1"; cases "n - 2") auto
  let ?rest = "concat (map (\<lambda>(opr, a). [(''OP'', opr), (''ID'', a)]) chain) @ t_end # post"
  have d0: "drop p tokens = (''OP'', opr) # (''ID'', a) # ?rest"
    using Cons.prems(1) by (simp add: oa)
  have d1: "drop (Suc p) tokens = (''ID'', a) # ?rest" using d0 by (rule drop_Suc_Cons)
  have d2: "drop (Suc (Suc p)) tokens = ?rest" using d1 by (rule drop_Suc_Cons)
  have prec: "PRECEDENCE opr = Some prec" and a: "a \<notin> set [''+'', ''-'', ''!'']"
    and m: "m \<le> prec"
    using Cons.prems(2,3) by (auto simp: oa)
  obtain t1 ts where rest: "?rest = t1 # ts"
    and t1: "snd t1 \<noteq> ''(''" "snd t1 \<noteq> ''=''"
            "\<forall>q. PRECEDENCE (snd t1) = Some q \<longrightarrow> q < prec + 1"
  proof (cases chain)
    case Nil
    have "\<forall>q. PRECEDENCE (snd t_end) = Some q \<longrightarrow> q < prec + 1"
      using Cons.prems(6) m by fastforce
    then show ?thesis
      using that[of t_end post] Nil Cons.prems(4,5) by simp
  next
    case (Cons ob chain')
    obtain opr' b where ob: "ob = (opr', b)" by (cases ob)
    have "PRECEDENCE opr' = Some prec" using Cons.prems(2) \<open>chain = ob # chain'\<close> ob by auto
    then show ?thesis
      using that[of "(''OP'', opr')" "(''ID'', b) # concat (map (\<lambda>(opr, a). [(''OP'', opr), (''ID'', a)]) chain') @ t_end # post"]
        \<open>chain = ob # chain'\<close> ob PRECEDENCE_not_paren[of opr' prec] by auto
  qed
  have operand: "parse_expr B tokens (Suc (Suc k)) (prec + 1) (p + 1) = Some (Inr (VarRef a, p + 1 + 1))"
    using d1 rest a t1 by (intro parse_identifier[where ?t1.0=t1 and ts=ts]) simp_all
  have loop: "parse_binary B tokens (Suc (Suc k)) m (BinaryExpr lhs opr (VarRef a)) (Suc (Suc p)) =
           Some (Inr (foldl (\<lambda>l (opr, a). BinaryExpr l opr (VarRef a)) (BinaryExpr lhs opr (VarRef a)) chain,
                      Suc (Suc p) + 2 * length chain))"
    using d2 Cons.prems(2,4,5,6) m k
    by (intro Cons.IH) auto
  have p0: "peek tokens p = Inr (''OP'', opr)" using d0 by (rule peek_drop)
  show ?case
    unfolding n using p0 prec m operand loop by (simp add: oa)
qed


lemma parsed_cases:
  fixes r :: "(error + 'a \<times> nat) option"
  obtains (fuel) "r = None" | (raised) e where "r = Some (Inl e)"
    | (returned) x p where "r = Some (Inr (x, p))"
proof (cases r)
  case None
  then show ?thesis by (rule fuel)
next
  case (Some a)
  show ?thesis
  proof (cases a)
    case (Inl e)
    then show ?thesis using Some raised by simp
  next
    case (Inr xp)
    then show ?thesis using Some returned[of "fst xp" "snd xp"] by simp
  qed
qed

lemma parsed_cases_gen:
  fixes r :: "(error + 'a) option"
  obtains (fuel) "r = None" | (raised) e where "r = Some (Inl e)"
    | (returned) x where "r = Some (Inr x)"
proof (cases r)
  case None
  then show ?thesis by (rule fuel)
next
  case (Some a)
  then show ?thesis using raised returned by (cases a) simp_all
qed

lemma parse_binary_stops:
  "parse_binary B tokens n m lhs pos = Some (Inr (e, p)) \<Longrightarrow>
     p < length tokens \<and> (\<forall>q. PRECEDENCE (snd (tokens ! p)) = Some q \<longrightarrow> q < m)"
proof (induction n arbitrary: lhs pos)
  case 0
  then show ?case by simp
next
  case (Suc n)
  show ?case
  proof (cases "pos < length tokens")
    case False
    then show ?thesis using Suc.prems by (simp add: peek_def)
  next
    case True
    then have pk: "peek tokens pos = Inr (tokens ! pos)" by (simp add: peek_def)
    show ?thesis
    proof (cases "PRECEDENCE (snd (tokens ! pos))")
      case None
      then show ?thesis using Suc.prems pk True by (simp add: returns_def)
    next
      case (Some prec)
      show ?thesis
      proof (cases "prec < m")
        case True
        then show ?thesis using Suc.prems pk Some \<open>pos < length tokens\<close> by (simp add: returns_def)
      next
        case False
        then obtain rhs p1 where
          "parse_binary B tokens n m (BinaryExpr lhs (snd (tokens ! pos)) rhs) p1 = Some (Inr (e, p))"
          using Suc.prems pk Some
          by (cases "parse_expr B tokens n (prec + 1) (pos + 1)" rule: parsed_cases) auto
        then show ?thesis by (rule Suc.IH)
      qed
    qed
  qed
qed

lemma parse_expr_stops:
  "parse_expr B tokens n m pos = Some (Inr (e, p)) \<Longrightarrow>
     p < length tokens \<and> (\<forall>q. PRECEDENCE (snd (tokens ! p)) = Some q \<longrightarrow> q < m)"
proof (cases n)
  case 0
  assume "parse_expr B tokens n m pos = Some (Inr (e, p))"
  then show ?thesis using 0 by simp
next
  case (Suc k)
  assume r: "parse_expr B tokens n m pos = Some (Inr (e, p))"
  show ?thesis
  proof (cases "peek tokens pos")
    case (Inl err)
    then show ?thesis using r unfolding Suc by simp
  next
    case (Inr t)
    show ?thesis
    proof (cases "snd t \<in> set [''+'', ''-'', ''!'']")
      case True
      then obtain operand p1 where
        "parse_binary B tokens k m (UnaryExpr (snd t) operand) p1 = Some (Inr (e, p))"
        using r Inr unfolding Suc
        by (cases "parse_expr B tokens k 7 (pos + 1)" rule: parsed_cases) auto
      then show ?thesis by (rule parse_binary_stops)
    next
      case False
      then obtain lhs p1 where "parse_binary B tokens k m lhs p1 = Some (Inr (e, p))"
        using r Inr unfolding Suc
        by (cases "parse_primary B tokens k pos" rule: parsed_cases) auto
      then show ?thesis by (rule parse_binary_stops)
    qed
  qed
qed

lemma PRECEDENCE_order:
  "PRECEDENCE ''||'' = Some 1 \<and> PRECEDENCE ''&&'' = Some 2
   \<and> PRECEDENCE ''=='' = Some 3 \<and> PRECEDENCE ''!='' = Some 3
   \<and> PRECEDENCE ''<'' = Some 4 \<and> PRECEDENCE ''>'' = Some 4
   \<and> PRECEDENCE ''<='' = Some 4 \<and> PRECEDENCE ''>='' = Some 4
   \<and> PRECEDENCE ''+'' = Some 5 \<and> PRECEDENCE ''-'' = Some 5
   \<and> PRECEDENCE ''*'' = Some 6 \<and> PRECEDENCE ''/'' = Some 6 \<and> PRECEDENCE ''%'' = Some 6"
  by (simp add: PRECEDENCE_def)

lemma PRECEDENCE_below_7: "PRECEDENCE s = Some q \<Longrightarrow> 1 \<le> q \<and> q < 7"
  by (auto simp: PRECEDENCE_def split: if_splits)

lemma parse_expr_chain:
  assumes tk: "tokens = pre @ [(''ID'', a0)]
                  @ concat (map (\<lambda>(opr, a). [(''OP'', opr), (''ID'', a)]) chain) @ [t_end] @ post"
    and a0: "a0 \<notin> set [''+'', ''-'', ''!'']"
    and ch: "\<forall>(opr, a) \<in> set chain. PRECEDENCE opr = Some prec \<and> a \<notin> set [''+'', ''-'', ''!'']"
    and m: "chain \<noteq> [] \<longrightarrow> m \<le> prec"
    and te: "snd t_end \<noteq> ''(''" "snd t_end \<noteq> ''=''"
            "\<forall>q. PRECEDENCE (snd t_end) = Some q \<longrightarrow> q < m"
    and n: "length chain + 3 \<le> n"
  shows "parse_expr B tokens n m (length pre) =
           Some (Inr (foldl (\<lambda>l (opr, a). BinaryExpr l opr (VarRef a)) (VarRef a0) chain,
                      length pre + 1 + 2 * length chain))"
proof -
  let ?rest = "concat (map (\<lambda>(opr, a). [(''OP'', opr), (''ID'', a)]) chain) @ t_end # post"
  obtain k where k: "n = Suc (Suc k)" "length chain + 1 \<le> k"
    using n by (cases n; cases "n - 1") auto
  have d0: "drop (length pre) tokens = (''ID'', a0) # ?rest" by (simp add: tk)
  have d1: "drop (Suc (length pre)) tokens = ?rest" using d0 by (rule drop_Suc_Cons)
  obtain t1 ts where rest: "?rest = t1 # ts" and t1: "snd t1 \<noteq> ''(''" "snd t1 \<noteq> ''=''"
  proof (cases chain)
    case Nil
    then show ?thesis using that[of t_end post] te by simp
  next
    case (Cons ob chain')
    obtain opr' b where ob: "ob = (opr', b)" by (cases ob)
    have "PRECEDENCE opr' = Some prec" using ch Cons ob by auto
    then show ?thesis
      using that[of "(''OP'', opr')" "(''ID'', b) # concat (map (\<lambda>(opr, a). [(''OP'', opr), (''ID'', a)]) chain') @ t_end # post"]
        Cons ob PRECEDENCE_not_paren[of opr' prec] by auto
  qed
  have p0: "peek tokens (length pre) = Inr (''ID'', a0)" using d0 by (rule peek_drop)
  have p1: "peek tokens (Suc (length pre)) = Inr t1" using d1 rest by (simp add: peek_drop)
  have prim: "parse_primary B tokens (Suc k) (length pre) = Some (Inr (VarRef a0, length pre + 1))"
    using p0 p1 t1 by (simp add: returns_def)
  have loop: "parse_binary B tokens (Suc k) m (VarRef a0) (Suc (length pre)) =
           Some (Inr (foldl (\<lambda>l (opr, a). BinaryExpr l opr (VarRef a)) (VarRef a0) chain,
                      Suc (length pre) + 2 * length chain))"
    using d1 ch m te k(2) by (intro parse_binary_chain) auto
  show ?thesis unfolding k(1) using p0 a0 prim loop by simp
qed


lemma parse_binary_consumes:
  assumes "pos < length tokens" and "PRECEDENCE (snd (tokens ! pos)) = Some prec" and "m \<le> prec"
  shows "parse_binary B tokens (Suc n) m lhs pos =
           andthen (parse_expr B tokens n (prec + 1) (pos + 1))
             (\<lambda>(rhs, p1). parse_binary B tokens n m (BinaryExpr lhs (snd (tokens ! pos)) rhs) p1)"
  using assms by (simp add: peek_def)

lemma parse_binary_leaves:
  assumes "pos < length tokens" and "\<forall>q. PRECEDENCE (snd (tokens ! pos)) = Some q \<longrightarrow> q < m"
  shows "parse_binary B tokens (Suc n) m lhs pos = Some (Inr (lhs, pos))"
  using assms by (cases "PRECEDENCE (snd (tokens ! pos))") (simp_all add: peek_def returns_def)

text \<open>
  Claim C4. The precedence table orders the operators
  \<open>||\<close> < \<open>&&\<close> < \<open>==\<close>, \<open>!=\<close> < \<open><\<close>, \<open>>\<close>, \<open><=\<close>, \<open>>=\<close> < \<open>+\<close>, \<open>-\<close> < \<open>*\<close>, \<open>/\<close>, \<open>%\<close>.
  The loop of \<open>parse_expr\<close> consumes the next token only when it is a binary operator
  whose precedence is at least the threshold \<open>m\<close>, and then parses the right operand
  with threshold \<open>prec + 1\<close>; otherwise it returns what it has built, so a parse that
  returns always stops in front of a token that is not such an operator. As a result, a
  chain \<open>a0 op1 a1 ... opk ak\<close> of identifiers joined by operators of one precedence
  (at least \<open>m\<close>), followed by a token that does not continue the expression, parses to
  the left-nested tree \<open>((a0 op1 a1) ... opk ak)\<close>, whenever the fuel is at least
  \<open>k + 3\<close>.
\<close>

theorem parse_expr_precedence_climbing:
  "(PRECEDENCE ''||'' = Some 1 \<and> PRECEDENCE ''&&'' = Some 2
    \<and> PRECEDENCE ''=='' = Some 3 \<and> PRECEDENCE ''!='' = Some 3
    \<and> PRECEDENCE ''<'' = Some 4 \<and> PRECEDENCE ''>'' = Some 4
    \<and> PRECEDENCE ''<='' = Some 4 \<and> PRECEDENCE ''>='' = Some 4
    \<and> PRECEDENCE ''+'' = Some 5 \<and> PRECEDENCE ''-'' = Some 5
    \<and> PRECEDENCE ''*'' = Some 6 \<and> PRECEDENCE ''/'' = Some 6 \<and> PRECEDENCE ''%'' = Some 6)
   \<and> (pos < length tokens \<and> PRECEDENCE (snd (tokens ! pos)) = Some prec \<and> m \<le> prec \<longrightarrow>
        parse_binary B tokens (Suc n) m lhs pos =
          andthen (parse_expr B tokens n (prec + 1) (pos + 1))
            (\<lambda>(rhs, p1). parse_binary B tokens n m (BinaryExpr lhs (snd (tokens ! pos)) rhs) p1))
   \<and> (pos < length tokens \<and> (\<forall>q. PRECEDENCE (snd (tokens ! pos)) = Some q \<longrightarrow> q < m) \<longrightarrow>
        parse_binary B tokens (Suc n) m lhs pos = Some (Inr (lhs, pos)))
   \<and> (parse_expr B tokens n m pos = Some (Inr (e, p)) \<longrightarrow>
        p < length tokens \<and> (\<forall>q. PRECEDENCE (snd (tokens ! p)) = Some q \<longrightarrow> q < m))
   \<and> (tokens = pre @ [(''ID'', a0)]
                  @ concat (map (\<lambda>(opr, a). [(''OP'', opr), (''ID'', a)]) chain) @ [t_end] @ post
        \<and> a0 \<notin> set [''+'', ''-'', ''!'']
        \<and> (\<forall>(opr, a) \<in> set chain. PRECEDENCE opr = Some prec \<and> a \<notin> set [''+'', ''-'', ''!''])
        \<and> (chain \<noteq> [] \<longrightarrow> m \<le> prec)
        \<and> snd t_end \<noteq> ''('' \<and> snd t_end \<noteq> ''=''
        \<and> (\<forall>q. PRECEDENCE (snd t_end) = Some q \<longrightarrow> q < m)
        \<and> length chain + 3 \<le> n \<longrightarrow>
        parse_expr B tokens n m (length pre) =
          Some (Inr (foldl (\<lambda>l (opr, a). BinaryExpr l opr (VarRef a)) (VarRef a0) chain,
                     length pre + 1 + 2 * length chain)))"
  using PRECEDENCE_order parse_binary_consumes[of pos tokens prec m B n lhs]
    parse_binary_leaves[of pos tokens m B n lhs] parse_expr_stops[of B tokens n m pos e p]
    parse_expr_chain[of tokens pre a0 chain t_end post prec m n B]
  by (intro conjI impI) (simp_all only:, blast+)


theorem parse_expr_precedence_climbing_witness:
  "\<forall>B. parse_expr B [(''ID'', ''a''), (''OP'', ''-''), (''ID'', ''b''), (''OP'', ''-''),
                       (''ID'', ''c''), (''OP'', '';'')] 5 1 0
        = Some (Inr (BinaryExpr (BinaryExpr (VarRef ''a'') ''-'' (VarRef ''b'')) ''-''
                       (VarRef ''c''), 5))"
proof
  fix B
  have pm: "PRECEDENCE ''-'' = Some 5" and ps: "PRECEDENCE '';'' = None"
    by (simp_all add: PRECEDENCE_def)
  show "parse_expr B [(''ID'', ''a''), (''OP'', ''-''), (''ID'', ''b''), (''OP'', ''-''),
                       (''ID'', ''c''), (''OP'', '';'')] 5 1 0
        = Some (Inr (BinaryExpr (BinaryExpr (VarRef ''a'') ''-'' (VarRef ''b'')) ''-''
                       (VarRef ''c''), 5))"
    using parse_expr_precedence_climbing[of _ "[(''ID'', ''a''), (''OP'', ''-''), (''ID'', ''b''),
        (''OP'', ''-''), (''ID'', ''c''), (''OP'', '';'')]" 5 1 B 5 _ _ _ "[]" "''a''"
        "[(''-'', ''b''), (''-'', ''c'')]" "(''OP'', '';'')" "[]"]
    by (simp add: pm ps)
qed

lemma parse_expr_unary_step:
  assumes "pos < length tokens" and "snd (tokens ! pos) \<in> set [''+'', ''-'', ''!'']"
  shows "parse_expr B tokens (Suc n) m pos =
           andthen (parse_expr B tokens n 7 (pos + 1))
             (\<lambda>(operand, p1). parse_binary B tokens n m (UnaryExpr (snd (tokens ! pos)) operand) p1)"
  using assms by (simp add: peek_def)

lemma parse_binary_level_7:
  assumes "pos < length tokens"
  shows "parse_binary B tokens (Suc n) 7 lhs pos = Some (Inr (lhs, pos))"
  using assms PRECEDENCE_below_7 by (intro parse_binary_leaves) auto

lemma parse_expr_unary_binary:
  assumes tk: "tokens = pre @ [(''OP'', u), (''ID'', a), (''OP'', opr), (''ID'', b), t_end] @ post"
    and u: "u \<in> set [''+'', ''-'', ''!'']"
    and ab: "a \<notin> set [''+'', ''-'', ''!'']" "b \<notin> set [''+'', ''-'', ''!'']"
    and prec: "PRECEDENCE opr = Some prec" "m \<le> prec"
    and te: "snd t_end \<noteq> ''(''" "snd t_end \<noteq> ''=''"
            "\<forall>q. PRECEDENCE (snd t_end) = Some q \<longrightarrow> q < m"
    and n: "4 \<le> n"
  shows "parse_expr B tokens n m (length pre) =
           Some (Inr (BinaryExpr (UnaryExpr u (VarRef a)) opr (VarRef b), length pre + 4))"
proof -
  obtain k where k: "n = Suc (Suc (Suc (Suc k)))"
    using n by (cases n; cases "n - 1"; cases "n - 2"; cases "n - 3") auto
  have d0: "drop (length pre) tokens = (''OP'', u) # (''ID'', a) # (''OP'', opr) # (''ID'', b) # t_end # post"
    by (simp add: tk)
  have d1: "drop (Suc (length pre)) tokens = (''ID'', a) # (''OP'', opr) # (''ID'', b) # t_end # post"
    using d0 by (rule drop_Suc_Cons)
  have d2: "drop (Suc (Suc (length pre))) tokens = (''OP'', opr) # (''ID'', b) # t_end # post"
    using d1 by (rule drop_Suc_Cons)
  have p0: "peek tokens (length pre) = Inr (''OP'', u)" using d0 by (rule peek_drop)
  have operand: "parse_expr B tokens (Suc (Suc (Suc k))) 7 (length pre + 1)
                   = Some (Inr (VarRef a, length pre + 1 + 1))"
    using d1 ab(1) prec(1) PRECEDENCE_not_paren[OF prec(1)] PRECEDENCE_below_7[OF prec(1)]
    by (intro parse_identifier[where ?t1.0="(''OP'', opr)" and ts="(''ID'', b) # t_end # post"])
       simp_all
  have loop: "parse_binary B tokens (Suc (Suc (Suc k))) m (UnaryExpr u (VarRef a)) (Suc (Suc (length pre)))
      = Some (Inr (foldl (\<lambda>l (opr, a). BinaryExpr l opr (VarRef a)) (UnaryExpr u (VarRef a)) [(opr, b)],
                   Suc (Suc (length pre)) + 2 * length [(opr, b)]))"
    using d2 ab(2) prec te
    by (intro parse_binary_chain[where t_end=t_end and post=post and prec=prec]) simp_all
  show ?thesis
    unfolding k using p0 u operand loop by simp
qed

text \<open>
  Claim C5. Every binary precedence is below \<open>7\<close>, the threshold at which the operand
  of a leading \<open>+\<close>, \<open>-\<close> or \<open>!\<close> is parsed, so the loop of that operand parse takes no
  binary operator, and the unary node is the left operand of the binary operators that
  follow. In particular \<open>u a op b\<close>, for identifiers \<open>a\<close> and \<open>b\<close>, a unary operator \<open>u\<close>
  and a binary operator \<open>op\<close> of precedence at least \<open>m\<close>, parses to
  \<open>BinaryExpr (UnaryExpr u a) op b\<close>.
\<close>

theorem parse_expr_unary:
  "(\<forall>s q. PRECEDENCE s = Some q \<longrightarrow> q < 7)
   \<and> (pos < length tokens \<and> snd (tokens ! pos) \<in> set [''+'', ''-'', ''!''] \<longrightarrow>
        parse_expr B tokens (Suc n) m pos =
          andthen (parse_expr B tokens n 7 (pos + 1))
            (\<lambda>(operand, p1).
               parse_binary B tokens n m (UnaryExpr (snd (tokens ! pos)) operand) p1))
   \<and> (pos < length tokens \<longrightarrow> parse_binary B tokens (Suc n) 7 lhs pos = Some (Inr (lhs, pos)))
   \<and> (tokens = pre @ [(''OP'', u), (''ID'', a), (''OP'', opr), (''ID'', b), t_end] @ post
        \<and> u \<in> set [''+'', ''-'', ''!'']
        \<and> a \<notin> set [''+'', ''-'', ''!''] \<and> b \<notin> set [''+'', ''-'', ''!'']
        \<and> PRECEDENCE opr = Some prec \<and> m \<le> prec
        \<and> snd t_end \<noteq> ''('' \<and> snd t_end \<noteq> ''=''
        \<and> (\<forall>q. PRECEDENCE (snd t_end) = Some q \<longrightarrow> q < m)
        \<and> 4 \<le> n \<longrightarrow>
        parse_expr B tokens n m (length pre) =
          Some (Inr (BinaryExpr (UnaryExpr u (VarRef a)) opr (VarRef b), length pre + 4)))"
  using PRECEDENCE_below_7 parse_expr_unary_step[of pos tokens B n m]
    parse_binary_level_7[of pos tokens B n lhs]
    parse_expr_unary_binary[of tokens pre u a opr b t_end post prec m n B]
  by (intro conjI impI allI) (simp_all only:, blast+)

theorem parse_expr_unary_witness:
  "\<forall>B. parse_expr B [(''OP'', ''-''), (''ID'', ''a''), (''OP'', ''*''), (''ID'', ''b''),
                       (''OP'', '';'')] 4 1 0
        = Some (Inr (BinaryExpr (UnaryExpr ''-'' (VarRef ''a'')) ''*'' (VarRef ''b''), 4))"
proof
  fix B
  have pm: "PRECEDENCE ''*'' = Some 6" and ps: "PRECEDENCE '';'' = None"
    by (simp_all add: PRECEDENCE_def)
  show "parse_expr B [(''OP'', ''-''), (''ID'', ''a''), (''OP'', ''*''), (''ID'', ''b''),
                       (''OP'', '';'')] 4 1 0
        = Some (Inr (BinaryExpr (UnaryExpr ''-'' (VarRef ''a'')) ''*'' (VarRef ''b''), 4))"
    using parse_expr_unary[of _ "[(''OP'', ''-''), (''ID'', ''a''), (''OP'', ''*''), (''ID'', ''b''),
        (''OP'', '';'')]" B 4 1 _ "[]" "''-''" "''a''" "''*''" "''b''" "(''OP'', '';'')" "[]" 6]
    by (simp add: pm ps)
qed


lemma andthen_returned:
  "andthen r f = Some (Inr y) \<longleftrightarrow> (\<exists>x. r = Some (Inr x) \<and> f x = Some (Inr y))"
  by (cases r rule: parsed_cases_gen) simp_all


lemma andthen_fuel:
  "andthen r f = None \<longleftrightarrow> r = None \<or> (\<exists>x. r = Some (Inr x) \<and> f x = None)"
  by (cases r rule: parsed_cases_gen) simp_all

lemma check_returned [simp]: "check r = Some (Inr x) \<longleftrightarrow> r = Inr x"
  by (simp add: check_def)

lemma check_fuel [simp]: "check r \<noteq> None"
  by (simp add: check_def)

lemma returns_returned [simp]: "returns x = Some (Inr y) \<longleftrightarrow> x = y"
  by (simp add: returns_def)

lemma returns_fuel [simp]: "returns x \<noteq> None"
  by (simp add: returns_def)

lemma peek_returned: "peek tokens pos = Inr t \<longleftrightarrow> pos < length tokens \<and> t = tokens ! pos"
  by (auto simp: peek_def)

lemma expect_op_returned:
  "expect_op tokens pos s = Inr p \<longleftrightarrow> pos < length tokens \<and> snd (tokens ! pos) = s \<and> p = pos + 1"
  by (auto simp: expect_op_def next_token_def)

lemma expect_returned:
  "expect tokens pos typ = Inr (t, p) \<longleftrightarrow>
     pos < length tokens \<and> t = tokens ! pos \<and> fst t = typ \<and> p = pos + 1"
  by (auto simp: expect_def next_token_def)

lemma expect_type_returned:
  "expect_type tokens pos = Inr (t, p) \<Longrightarrow> pos < length tokens \<and> p = pos + 1"
  by (auto simp: expect_type_def next_token_def peek_def split: if_splits)

lemma parse_progress:
  "(\<forall>m pos e p. parse_expr B tokens n m pos = Some (Inr (e, p)) \<longrightarrow> pos < p)
   \<and> (\<forall>m lhs pos e p. parse_binary B tokens n m lhs pos = Some (Inr (e, p)) \<longrightarrow> pos \<le> p)
   \<and> (\<forall>pos e p. parse_primary B tokens n pos = Some (Inr (e, p)) \<longrightarrow> pos < p)
   \<and> (\<forall>args pos es p. parse_args B tokens n args pos = Some (Inr (es, p)) \<longrightarrow> pos < p)"
proof (induction n)
  case 0
  show ?case by simp
next
  case (Suc n)
  have pe: "parse_expr B tokens n m pos = Some (Inr (e, p)) \<Longrightarrow> pos < p" for m pos e p
    using Suc.IH by blast
  have pb: "parse_binary B tokens n m lhs pos = Some (Inr (e, p)) \<Longrightarrow> pos \<le> p" for m lhs pos e p
    using Suc.IH by blast
  have pp: "parse_primary B tokens n pos = Some (Inr (e, p)) \<Longrightarrow> pos < p" for pos e p
    using Suc.IH by blast
  have pa: "parse_args B tokens n args pos = Some (Inr (es, p)) \<Longrightarrow> pos < p" for args pos es p
    using Suc.IH by blast
  have 1: "pos < p" if "parse_expr B tokens (Suc n) m pos = Some (Inr (e, p))" for m pos e p
    using that
    by (auto simp: andthen_returned split: if_splits dest!: pe pb pp)
  have 2: "pos \<le> p" if "parse_binary B tokens (Suc n) m lhs pos = Some (Inr (e, p))" for m lhs pos e p
    using that
    by (auto simp: andthen_returned split: if_splits option.splits dest!: pe pb)
  have 3: "pos < p" if "parse_primary B tokens (Suc n) pos = Some (Inr (e, p))" for pos e p
    using that
    by (auto simp: andthen_returned expect_op_returned split: if_splits dest!: pe pa)
  have 4: "pos < p" if "parse_args B tokens (Suc n) args pos = Some (Inr (es, p))" for args pos es p
    using that
    by (auto simp: andthen_returned split: if_splits dest!: pe pa)
  show ?case using 1 2 3 4 by blast
qed


lemma parse_enough_fuel:
  "(\<forall>m pos. 2 * (length tokens - pos) + 2 \<le> n \<longrightarrow> parse_expr B tokens n m pos \<noteq> None)
   \<and> (\<forall>m lhs pos. 2 * (length tokens - pos) + 1 \<le> n \<longrightarrow>
          parse_binary B tokens n m lhs pos \<noteq> None)
   \<and> (\<forall>pos. 2 * (length tokens - pos) + 1 \<le> n \<longrightarrow> parse_primary B tokens n pos \<noteq> None)
   \<and> (\<forall>args pos. 2 * (length tokens - pos) + 3 \<le> n \<longrightarrow>
          parse_args B tokens n args pos \<noteq> None)"
proof (induction n)
  case 0
  show ?case by simp
next
  case (Suc n)
  have pe: "parse_expr B tokens n m pos \<noteq> None" if "2 * (length tokens - pos) + 2 \<le> n" for m pos
    using Suc.IH that by blast
  have pb: "parse_binary B tokens n m lhs pos \<noteq> None" if "2 * (length tokens - pos) + 1 \<le> n"
    for m lhs pos using Suc.IH that by blast
  have pp: "parse_primary B tokens n pos \<noteq> None" if "2 * (length tokens - pos) + 1 \<le> n" for pos
    using Suc.IH that by blast
  have pa: "parse_args B tokens n args pos \<noteq> None" if "2 * (length tokens - pos) + 3 \<le> n"
    for args pos using Suc.IH that by blast
  note prog = parse_progress[of B tokens n]
  have ge: "pos < p" if "parse_expr B tokens n m pos = Some (Inr (e, p))" for m pos e p
    using prog that by blast
  have gp: "pos < p" if "parse_primary B tokens n pos = Some (Inr (e, p))" for pos e p
    using prog that by blast
  have 1: "parse_expr B tokens (Suc n) m pos \<noteq> None"
    if b: "2 * (length tokens - pos) + 2 \<le> Suc n" for m pos
  proof (cases "pos < length tokens")
    case False
    then show ?thesis by (simp add: peek_def)
  next
    case True
    then have pk: "peek tokens pos = Inr (tokens ! pos)" by (simp add: peek_def)
    show ?thesis
    proof (cases "snd (tokens ! pos) \<in> set [''+'', ''-'', ''!'']")
      case u: True
      have "parse_expr B tokens n 7 (pos + 1) \<noteq> None" using b True by (intro pe) simp
      moreover have "parse_binary B tokens n m lhs p1 \<noteq> None"
        if "parse_expr B tokens n 7 (pos + 1) = Some (Inr (operand, p1))" for lhs operand p1
        using ge[OF that] b by (intro pb) simp
      ultimately show ?thesis using pk u by (auto simp: andthen_fuel simp del: not_None_eq)
    next
      case nu: False
      have "parse_primary B tokens n pos \<noteq> None" using b by (intro pp) simp
      moreover have "parse_binary B tokens n m lhs p1 \<noteq> None"
        if "parse_primary B tokens n pos = Some (Inr (lhs, p1))" for lhs p1
        using gp[OF that] b by (intro pb) simp
      ultimately show ?thesis using pk nu by (auto simp: andthen_fuel simp del: not_None_eq)
    qed
  qed
  have 2: "parse_binary B tokens (Suc n) m lhs pos \<noteq> None"
    if b: "2 * (length tokens - pos) + 1 \<le> Suc n" for m lhs pos
  proof (cases "pos < length tokens")
    case False
    then show ?thesis by (simp add: peek_def)
  next
    case True
    then have pk: "peek tokens pos = Inr (tokens ! pos)" by (simp add: peek_def)
    have "parse_expr B tokens n q (pos + 1) \<noteq> None" for q using b True by (intro pe) simp
    moreover have "parse_binary B tokens n m l p1 \<noteq> None"
      if "parse_expr B tokens n q (pos + 1) = Some (Inr (rhs, p1))" for q l rhs p1
      using ge[OF that] b True by (intro pb) simp
    ultimately show ?thesis
      using pk by (auto simp: andthen_fuel simp del: not_None_eq split: option.splits)
  qed
  have 3: "parse_primary B tokens (Suc n) pos \<noteq> None"
    if b: "2 * (length tokens - pos) + 1 \<le> Suc n" for pos
  proof (cases "pos < length tokens")
    case False
    then show ?thesis by (simp add: peek_def)
  next
    case True
    then have pk: "peek tokens pos = Inr (tokens ! pos)" by (simp add: peek_def)
    have e1: "parse_expr B tokens n 1 (pos + 1) \<noteq> None" using b True by (intro pe) simp
    have e2: "parse_expr B tokens n 1 (pos + 2) \<noteq> None" if "pos + 1 < length tokens"
      using b that by (intro pe) simp
    have a2: "parse_args B tokens n [] (pos + 2) \<noteq> None" if "pos + 2 < length tokens"
      using b that by (intro pa) simp
    show ?thesis
      using pk e1 e2 a2
      by (auto simp: andthen_fuel peek_returned simp del: not_None_eq split: prod.splits)
  qed
  have 4: "parse_args B tokens (Suc n) args pos \<noteq> None"
    if b: "2 * (length tokens - pos) + 3 \<le> Suc n" for args pos
  proof -
    have "parse_expr B tokens n 1 pos \<noteq> None" using b by (intro pe) simp
    moreover have "parse_args B tokens n as (p1 + 1) \<noteq> None"
      if "parse_expr B tokens n 1 pos = Some (Inr (a, p1))" "p1 < length tokens" for as a p1
      using ge[OF that(1)] that(2) b by (intro pa) simp
    ultimately show ?thesis
      by (auto simp: andthen_fuel peek_returned simp del: not_None_eq)
  qed
  show ?case using 1 2 3 4 by blast
qed


lemma vardecl_names_enough_fuel:
  "2 * (length tokens - pos) + 1 \<le> n \<Longrightarrow> vardecl_names B tokens n names pos \<noteq> None"
proof (induction n arbitrary: names pos)
  case 0
  then show ?case by simp
next
  case (Suc n)
  have e: "parse_expr B tokens n 1 (pos + 2) \<noteq> None" if "pos + 1 < length tokens"
    using Suc.prems that parse_enough_fuel[of tokens n B] by force
  have ge: "q < p" if "parse_expr B tokens n 1 q = Some (Inr (x, p))" for q x p
    using parse_progress[of B tokens n] that by blast
  have r1: "vardecl_names B tokens n ns (p2 + 1) \<noteq> None"
    if "parse_expr B tokens n 1 (pos + 2) = Some (Inr (x, p2))" "p2 < length tokens" for ns x p2
    using ge[OF that(1)] that(2) Suc.prems by (intro Suc.IH) simp
  have r2: "vardecl_names B tokens n ns (pos + 2) \<noteq> None" if "pos + 1 < length tokens" for ns
    using that Suc.prems by (intro Suc.IH) simp
  show ?case
    using e r1 r2
    by (auto simp: andthen_fuel andthen_returned peek_returned expect_returned
             simp del: not_None_eq split: prod.splits)
qed

lemma parse_vardecl_enough_fuel:
  "2 * (length tokens - pos) + 1 \<le> fuel \<Longrightarrow> parse_vardecl B tokens fuel pos \<noteq> None"
proof -
  assume b: "2 * (length tokens - pos) + 1 \<le> fuel"
  have "vardecl_names B tokens fuel [] (pos + 1) \<noteq> None"
    using b by (intro vardecl_names_enough_fuel) simp
  then show ?thesis
    unfolding parse_vardecl_def
    by (auto simp: andthen_fuel simp del: not_None_eq dest!: expect_type_returned
             split: prod.splits)
qed

lemma vardecl_names_progress:
  "vardecl_names B tokens n names pos = Some (Inr (ns, p)) \<Longrightarrow> pos < p"
proof (induction n arbitrary: names pos)
  case 0
  then show ?case by simp
next
  case (Suc n)
  have ge: "q < p" if "parse_expr B tokens n (Suc 0) q = Some (Inr (x, p))" for q x p
    using parse_progress[of B tokens n] that by blast
  show ?case
    using Suc.prems
    by (auto simp: andthen_returned peek_returned expect_returned
             split: if_splits dest!: Suc.IH ge)
qed

lemma parse_vardecl_terminator:
  "parse_vardecl B tokens fuel pos = Some (Inr (s, p)) \<Longrightarrow>
     pos < p \<and> p \<le> length tokens \<and> snd (tokens ! (p - 1)) = '';''"
  unfolding parse_vardecl_def
  by (auto simp: andthen_returned expect_op_returned
           dest!: expect_type_returned vardecl_names_progress)


text \<open>
  Claim C10. \<open>parse_vardecl_for\<close> and \<open>parse_vardecl\<close> give the same result on every
  token list, position and fuel: the same exception, or the same \<open>VarDecl\<close> and the same
  new position. With fuel above twice the number of remaining tokens the result is not
  the end of the fuel. When they return, the last token consumed is the terminator
  \<open>;\<close>.
\<close>

theorem parse_vardecl_for_equivalent:
  "parse_vardecl_for B tokens fuel pos = parse_vardecl B tokens fuel pos
   \<and> (2 * (length tokens - pos) + 1 \<le> fuel \<longrightarrow> parse_vardecl B tokens fuel pos \<noteq> None)
   \<and> (parse_vardecl B tokens fuel pos = Some (Inr (s, p)) \<longrightarrow>
        pos < p \<and> p \<le> length tokens \<and> snd (tokens ! (p - 1)) = '';'')"
  using parse_vardecl_for_eq[of B tokens fuel pos] parse_vardecl_enough_fuel[of tokens pos fuel B]
    parse_vardecl_terminator[of B tokens fuel pos s p]
  by blast

theorem parse_vardecl_for_equivalent_witness:
  "\<forall>B. parse_vardecl_for B [(''INT'', ''int''), (''ID'', ''a''), (''OP'', ''=''), (''ID'', ''b''),
                              (''OP'', '',''), (''ID'', ''c''), (''OP'', '';'')] 15 0
          = Some (Inr (VarDecl ''int'' [(''a'', Some (VarRef ''b'')), (''c'', None)], 7))
      \<and> parse_vardecl_for B [(''INT'', ''int''), (''ID'', ''a''), (''OP'', ''=''), (''ID'', ''b'')] 9 0
          = Some (Inl IndexError)"
proof
  fix B
  let ?t = "[(''INT'', ''int''), (''ID'', ''a''), (''OP'', ''=''), (''ID'', ''b''),
             (''OP'', '',''), (''ID'', ''c''), (''OP'', '';'')]"
  let ?u = "[(''INT'', ''int''), (''ID'', ''a''), (''OP'', ''=''), (''ID'', ''b'')]"
  have 1: "parse_vardecl B ?t 15 0
          = Some (Inr (VarDecl ''int'' [(''a'', Some (VarRef ''b'')), (''c'', None)], 7))"
    by (simp add: parse_vardecl_def expect_type_def expect_def expect_op_def next_token_def
          peek_def PRECEDENCE_def returns_def eval_nat_numeral)
  have 2: "parse_vardecl B ?u 9 0 = Some (Inl IndexError)"
    by (simp add: parse_vardecl_def expect_type_def expect_def expect_op_def next_token_def
          peek_def PRECEDENCE_def returns_def eval_nat_numeral)
  show "parse_vardecl_for B ?t 15 0
          = Some (Inr (VarDecl ''int'' [(''a'', Some (VarRef ''b'')), (''c'', None)], 7))
      \<and> parse_vardecl_for B ?u 9 0 = Some (Inl IndexError)"
    using parse_vardecl_for_equivalent[of B ?t 15 0] parse_vardecl_for_equivalent[of B ?u 9 0] 1 2
    by simp
qed

end
